theory Spec2Isabelle
  imports Main "HOL-Library.Word" "HOL-Library.Multiset"
begin

unbundle bit_operations_syntax

section \<open>Lane groups and the hardware instructions they use\<close>

text \<open>
  A lane group (warp) is a list holding one value per lane, lane 0 first. Which lanes
  are executing is a list of booleans of the same shape. Masks are 32-bit words
  (\<^verbatim>\<open>unsigned\<close>), bit \<open>i\<close> standing for lane \<open>i\<close>.

  Modelled from the spec: the header \<^verbatim>\<open>grid_info\<close> that declares
  \<^verbatim>\<open>warp_size\<close>, \<^verbatim>\<open>first_lane\<close> and \<^verbatim>\<open>last_lane\<close> is
  missing; the spec fixes the group width at W = 32 in the reference design, which
  is also the number of bits of the ballot word.
\<close>

definition warp_size :: nat where
  "warp_size = 32"

definition first_lane :: nat where
  "first_lane = 0"

definition last_lane :: nat where
  "last_lane = warp_size - 1"

text \<open>
  Modelled from the spec: the builtins \<^verbatim>\<open>warp_ballot\<close>,
  \<^verbatim>\<open>population_count\<close>, \<^verbatim>\<open>count_leading_zeros\<close> and
  \<^verbatim>\<open>count_trailing_zeros\<close> live in headers that are missing. The spec
  describes them as the bitmask of the lanes that satisfy a predicate (a lane that is not executing
  contributes a zero bit), the population count of a mask, and the leading and trailing
  zero-counts of a mask. Leading zeros are counted from bit 31 downwards, trailing zeros
  from bit 0 upwards; both give 32 on the empty mask.
\<close>

definition warp_ballot :: "bool list \<Rightarrow> bool list \<Rightarrow> 32 word" where
  "warp_ballot active predicate = horner_sum of_bool 2 (map2 (\<and>) active predicate)"

definition population_count :: "32 word \<Rightarrow> nat" where
  "population_count x = length (filter (bit x) [0..<32])"

definition count_leading_zeros :: "32 word \<Rightarrow> nat" where
  "count_leading_zeros x = length (takeWhile (\<lambda>i. \<not> bit x i) (rev [0..<32]))"

definition count_trailing_zeros :: "32 word \<Rightarrow> nat" where
  "count_trailing_zeros x = length (takeWhile (\<lambda>i. \<not> bit x i) [0..<32])"

text \<open>
  \<^verbatim>\<open>__shfl(value, source_lane)\<close>: every lane reads the register of the source
  lane (taken modulo the width, as the instruction does). \<^verbatim>\<open>__shfl_up(value, delta)\<close>:
  lane \<open>i\<close> reads lane \<open>i - delta\<close>; a lane with \<open>i < delta\<close> keeps its own value.
\<close>

definition shfl :: "'a list \<Rightarrow> nat \<Rightarrow> 'a" where
  "shfl values source_lane = values ! (source_lane mod length values)"

definition shfl_up :: "'a list \<Rightarrow> nat \<Rightarrow> 'a list" where
  "shfl_up values delta =
     map (\<lambda>i. if delta \<le> i then values ! (i - delta) else values ! i) [0..<length values]"

definition get_from_lane :: "'a list \<Rightarrow> nat \<Rightarrow> 'a" where
  "get_from_lane values source_lane = shfl values source_lane"

definition get_from_first_lane :: "'a list \<Rightarrow> 'a" where
  "get_from_first_lane values = get_from_lane values first_lane"

definition get_from_last_lane :: "'a list \<Rightarrow> 'a" where
  "get_from_last_lane values = get_from_lane values last_lane"

text \<open>\<^verbatim>\<open>update_from_lane(value, source_lane)\<close>: every lane's copy becomes the
  source lane's.\<close>

definition update_from_lane :: "'a list \<Rightarrow> nat \<Rightarrow> 'a list" where
  "update_from_lane values source_lane = map (\<lambda>_. shfl values source_lane) values"

text \<open>\<^verbatim>\<open>all_satisfy\<close> is the \<^verbatim>\<open>__all\<close> vote over the executing lanes;
  \<^verbatim>\<open>first_lane_satisfying\<close> is the trailing zero-count of the ballot.\<close>

definition all_satisfy :: "bool list \<Rightarrow> bool list \<Rightarrow> bool" where
  "all_satisfy active predicate = list_all (\<lambda>(a, p). if a then p else True) (zip active predicate)"

definition first_lane_satisfying :: "bool list \<Rightarrow> bool list \<Rightarrow> nat" where
  "first_lane_satisfying active predicate = count_trailing_zeros (warp_ballot active predicate)"

section \<open>Leader election and ranks among the active lanes\<close>

definition active_lanes_mask :: "bool list \<Rightarrow> 32 word" where
  "active_lanes_mask active = warp_ballot active (map (\<lambda>_. True) active)"

definition active_lane_count :: "bool list \<Rightarrow> nat" where
  "active_lane_count active = population_count (active_lanes_mask active)"

text \<open>\<^verbatim>\<open>detail::select_leader_lane<PreferFirstLane>(active_lanes_mask)\<close>.\<close>

definition detail_select_leader_lane :: "bool \<Rightarrow> 32 word \<Rightarrow> nat" where
  "detail_select_leader_lane PreferFirstLane lanes_mask =
     (if PreferFirstLane then count_leading_zeros lanes_mask
      else count_trailing_zeros lanes_mask)"

definition detail_am_leader_lane :: "bool \<Rightarrow> 32 word \<Rightarrow> nat \<Rightarrow> bool" where
  "detail_am_leader_lane PreferFirstLane lanes_mask lane_index =
     (detail_select_leader_lane PreferFirstLane lanes_mask = lane_index)"

text \<open>
  \<^verbatim>\<open>detail::lane_index_among_active_lanes(active_lanes_mask)\<close> is declared with
  return type \<^verbatim>\<open>bool\<close>: the population count is converted to a boolean on return.
  The mask of preceding lanes is \<^verbatim>\<open>(1 << laneid) - 1\<close>.
\<close>

definition detail_lane_index_among_active_lanes :: "32 word \<Rightarrow> nat \<Rightarrow> bool" where
  "detail_lane_index_among_active_lanes lanes_mask laneid =
     (let preceding_lanes_mask = (push_bit laneid 1 - 1 :: 32 word)
      in population_count preceding_lanes_mask \<noteq> 0)"

text \<open>The public wrappers read the mask of the lanes executing the call. The wrapper of
  the rank returns \<^verbatim>\<open>unsigned\<close>: the boolean becomes 0 or 1.\<close>

definition select_leader_lane :: "bool \<Rightarrow> bool list \<Rightarrow> nat" where
  "select_leader_lane PreferFirstLane active =
     detail_select_leader_lane PreferFirstLane (active_lanes_mask active)"

definition am_leader_lane :: "bool \<Rightarrow> bool list \<Rightarrow> nat \<Rightarrow> bool" where
  "am_leader_lane PreferFirstLane active lane_index =
     detail_am_leader_lane PreferFirstLane (active_lanes_mask active) lane_index"

definition lane_index_among_active_lanes :: "bool list \<Rightarrow> nat \<Rightarrow> nat" where
  "lane_index_among_active_lanes active laneid =
     (if detail_lane_index_among_active_lanes (active_lanes_mask active) laneid then 1 else 0)"

text \<open>
  \<^verbatim>\<open>have_a_single_lane_compute(f, designated_computing_lane)\<close>, where \<open>f\<close> acts on one
  shared memory cell: the designated lane runs \<open>f\<close> if it is executing, and every
  executing lane then reads the designated lane's \<^verbatim>\<open>result\<close> register. A lane that
  did not run \<open>f\<close> holds an indeterminate \<^verbatim>\<open>result\<close>, here the parameter
  \<open>indeterminate\<close>. The function returns the cell and the value every lane received.
\<close>

definition have_a_single_lane_compute ::
  "('s \<Rightarrow> 'r \<times> 's) \<Rightarrow> nat \<Rightarrow> bool list \<Rightarrow> 'r \<Rightarrow> 's \<Rightarrow> 'r \<times> 's" where
  "have_a_single_lane_compute f designated_computing_lane active indeterminate cell =
     (let ran = map (\<lambda>lane. active ! lane \<and> lane = designated_computing_lane) [0..<length active];
          outcome = (if list_ex (\<lambda>r. r) ran then f cell else (indeterminate, cell));
          result = map (\<lambda>r. if r then fst outcome else indeterminate) ran
      in (get_from_lane result designated_computing_lane, snd outcome))"

text \<open>\<^verbatim>\<open>atomic::add(counter, n)\<close> adds to the cell and returns the value before.\<close>

definition atomic_add :: "nat \<Rightarrow> nat \<Rightarrow> nat \<times> nat" where
  "atomic_add n counter = (counter, counter + n)"

text \<open>
  \<^verbatim>\<open>active_lanes_increment(counter)\<close>. The lambda \<^verbatim>\<open>perform_all_increments\<close> of the
  source calls \<^verbatim>\<open>atomic::add\<close> without returning its value; the model hands the
  value before the addition on, as the name \<^verbatim>\<open>value_before_all_lane_increments\<close>
  says. The result is the new counter and what the lane \<open>laneid\<close> gets back.
\<close>

definition active_lanes_increment :: "bool list \<Rightarrow> nat \<Rightarrow> nat \<Rightarrow> nat \<Rightarrow> nat \<times> nat" where
  "active_lanes_increment active indeterminate counter laneid =
     (let lanes_mask = active_lanes_mask active;
          lane_count = population_count lanes_mask;
          perform_all_increments = atomic_add lane_count;
          (value_before_all_lane_increments, counter') =
             have_a_single_lane_compute perform_all_increments
               (detail_select_leader_lane True lanes_mask) active indeterminate counter
      in (counter',
          value_before_all_lane_increments
            + (if detail_lane_index_among_active_lanes lanes_mask laneid then 1 else 0)))"

text \<open>The lane sets used below: all 32 lanes executing, and only lanes 5 and 9.\<close>

definition all_lanes :: "bool list" where
  "all_lanes = map (\<lambda>_. True) [0..<32]"

definition lanes_5_and_9 :: "bool list" where
  "lanes_5_and_9 = map (\<lambda>lane. lane = 5 \<or> lane = 9) [0..<32]"

section \<open>Sorted search across the lanes\<close>

text \<open>
  \<^verbatim>\<open>search_result_t<T>\<close>: the lane index defaults to \<^verbatim>\<open>warp_size\<close>, the value
  is not initialised (\<open>None\<close> until it is assigned).
\<close>

record 'a search_result_t =
  lane_index :: nat
  result_value :: "'a option"

definition is_set :: "'a search_result_t \<Rightarrow> bool" where
  "is_set r = (lane_index r < warp_size)"

text \<open>
  The binary search loop of \<^verbatim>\<open>multisearch\<close>. Both shuffles of the source read the
  register \<^verbatim>\<open>lane_needle\<close> of the other lane, so the loop takes the needles of the
  group. The bounds are \<^verbatim>\<open>unsigned\<close>; \<open>lower \<le> upper\<close> holds from the start and is
  kept by every step, so the difference never wraps.
\<close>

function multisearch_bisect :: "('a::linorder) list \<Rightarrow> 'a \<Rightarrow> nat \<Rightarrow> nat \<Rightarrow> nat \<times> nat" where
  "multisearch_bisect needles lane_needle lower upper =
     (if 6 \<le> upper - lower then
        (let mid = (lower + upper) div 2;
             mid_lane_hay_straw = shfl needles mid
         in if lane_needle \<le> mid_lane_hay_straw
            then multisearch_bisect needles lane_needle (mid + 1) upper
            else multisearch_bisect needles lane_needle lower mid)
      else (lower, upper))"
  by pat_completeness auto
termination
  by (relation "measure (\<lambda>(needles, lane_needle, lower, upper). upper - lower)") auto

text \<open>The linear scan that follows; it stops at the first lane whose shuffled value
  exceeds the needle.\<close>

function multisearch_scan ::
  "('a::linorder) list \<Rightarrow> 'a \<Rightarrow> nat \<Rightarrow> nat \<Rightarrow> 'a search_result_t \<Rightarrow> 'a search_result_t" where
  "multisearch_scan needles lane_needle lane upper result =
     (if lane < upper then
        (let hay_straw = shfl needles lane
         in if \<not> is_set result \<and> lane_needle < hay_straw
            then \<lparr>lane_index = lane, result_value = Some hay_straw\<rparr>
            else multisearch_scan needles lane_needle (lane + 1) upper result)
      else result)"
  by pat_completeness auto
termination
  by (relation "measure (\<lambda>(needles, lane_needle, lane, upper, result). upper - lane)") auto

text \<open>\<^verbatim>\<open>multisearch(lane_needle, lane_hay_straw)\<close> as run by the lane \<open>laneid\<close> of a
  group whose lanes hold \<open>needles\<close> and \<open>hay_straws\<close>.\<close>

definition multisearch :: "('a::linorder) list \<Rightarrow> 'a list \<Rightarrow> nat \<Rightarrow> 'a search_result_t" where
  "multisearch needles hay_straws laneid =
     (let lane_needle = needles ! laneid;
          lane_hay_straw = hay_straws ! laneid;
          result = \<lparr>lane_index = warp_size, result_value = None\<rparr>;
          bounds = (if lane_needle \<le> lane_hay_straw then (first_lane, laneid)
                    else (laneid + 1, warp_size));
          (lower, upper) = multisearch_bisect needles lane_needle (fst bounds) (snd bounds)
      in multisearch_scan needles lane_needle lower upper result)"

text \<open>A sorted group of 32 hay values: lane \<open>i\<close> holds \<open>10 * (i + 1)\<close>, so the first four
  lanes hold 10, 20, 30, 40.\<close>

definition tens :: "nat list" where
  "tens = map (\<lambda>lane. 10 * (lane + 1)) [0..<32]"

section \<open>Bulk copy by a lane group\<close>

text \<open>
  Modelled from the spec: \<^verbatim>\<open>primitives::detail::elements_per_full_warp_write<T>\<close>,
  \<^verbatim>\<open>log2_constexpr\<close> and \<^verbatim>\<open>clear_lower_k_bits\<close> are declared in headers that are
  missing. The spec packs several elements into one register-width (4-byte) write
  when \<^verbatim>\<open>sizeof(T)\<close> divides the native write width evenly; the other two are the
  integer binary logarithm and the clearing of the \<open>k\<close> lowest bits.
\<close>

definition elements_per_full_warp_write :: "nat \<Rightarrow> nat" where
  "elements_per_full_warp_write sizeof_T = (if sizeof_T dvd 4 then 4 div sizeof_T else 1)"

fun log2_constexpr :: "nat \<Rightarrow> nat" where
  "log2_constexpr n = (if n < 2 then 0 else 1 + log2_constexpr (n div 2))"

declare log2_constexpr.simps [simp del]

lemma log2_constexpr_values:
  "log2_constexpr 1 = 0" "log2_constexpr 2 = 1" "log2_constexpr 4 = 2"
  by code_simp+

definition clear_lower_k_bits :: "nat \<Rightarrow> nat \<Rightarrow> nat" where
  "clear_lower_k_bits x k = x - x mod 2 ^ k"

lemma elements_per_full_warp_write_pos: "0 < elements_per_full_warp_write s"
proof (cases "s dvd 4")
  case True
  then have "s \<le> 4" "0 < s" by (auto dest: dvd_imp_le intro: Nat.gr0I)
  then show ?thesis using True by (simp add: elements_per_full_warp_write_def div_greater_zero_iff)
next
  case False
  then show ?thesis by (simp add: elements_per_full_warp_write_def)
qed

text \<open>
  Memory read through a pointer is a function from offsets to values. Each copy
  routine returns the writes one lane performs on \<^verbatim>\<open>target\<close>, as pairs of offset and
  value, in program order. \<^verbatim>\<open>detail::naive_copy\<close> starts at \<^verbatim>\<open>lane::index()\<close>.
\<close>

function naive_copy_loop :: "(nat \<Rightarrow> 'a) \<Rightarrow> nat \<Rightarrow> nat \<Rightarrow> (nat \<times> 'a) list" where
  "naive_copy_loop source len pos =
     (if pos < len then (pos, source pos) # naive_copy_loop source len (pos + warp_size) else [])"
  by pat_completeness auto
termination
  by (relation "measure (\<lambda>(source, len, pos). len - pos)") (auto simp: warp_size_def)

definition naive_copy :: "(nat \<Rightarrow> 'a) \<Rightarrow> nat \<Rightarrow> nat \<Rightarrow> (nat \<times> 'a) list" where
  "naive_copy source len laneid = naive_copy_loop source len laneid"

text \<open>The loop of packed writes of \<^verbatim>\<open>copy_n\<close>: one write moves
  \<^verbatim>\<open>elements_per_full_warp_write\<close> consecutive elements.\<close>

function packed_copy_loop :: "(nat \<Rightarrow> 'a) \<Rightarrow> nat \<Rightarrow> nat \<Rightarrow> nat \<Rightarrow> (nat \<times> 'a) list" where
  "packed_copy_loop source sizeof_T truncated_length pos =
     (if pos < truncated_length then
        map (\<lambda>e. (pos + e, source (pos + e))) [0..<elements_per_full_warp_write sizeof_T]
        @ packed_copy_loop source sizeof_T truncated_length
            (pos + warp_size * elements_per_full_warp_write sizeof_T)
      else [])"
  by pat_completeness auto
termination
  by (relation "measure (\<lambda>(source, sizeof_T, truncated_length, pos). truncated_length - pos)")
     (use elements_per_full_warp_write_pos in \<open>auto simp: warp_size_def intro!: diff_less_mono2\<close>)

text \<open>
  \<^verbatim>\<open>copy_n<T, Size, MayHaveSlack>(target, source, length)\<close> for the lane \<open>laneid\<close>.
  The first test of the source (packing factor 1, or a size other than 1, 2, 4, 8, or
  a type that is not trivially copy-constructible) selects the naive copy.
\<close>

definition copy_n ::
  "nat \<Rightarrow> bool \<Rightarrow> bool \<Rightarrow> (nat \<Rightarrow> 'a) \<Rightarrow> nat \<Rightarrow> nat \<Rightarrow> (nat \<times> 'a) list" where
  "copy_n sizeof_T trivially_copy_constructible MayHaveSlack source len laneid =
     (let epw = elements_per_full_warp_write sizeof_T;
          packed_writes = (if epw = 1 then False
                           else if sizeof_T \<in> {1, 2, 4, 8} then trivially_copy_constructible
                           else False)
      in if packed_writes then
           (let truncated_length =
                  (if MayHaveSlack then clear_lower_k_bits len (log2_constexpr epw) else len)
            in packed_copy_loop source sizeof_T truncated_length (laneid * epw) @
               (if MayHaveSlack then
                  (if epw = 2 then [(truncated_length, source truncated_length)]
                   else (let num_slack_elements = len - truncated_length
                         in if laneid < num_slack_elements
                            then [(truncated_length + laneid, source (truncated_length + laneid))]
                            else []))
                else []))
         else naive_copy source len laneid)"

section \<open>Prefix scan\<close>

datatype inclusivity_t = Exclusive | Inclusive

text \<open>
  The ladder of \<^verbatim>\<open>scan\<close>: \<^verbatim>\<open>for (offset = 1; offset < warp_size; offset <<= 1)\<close>, each
  step shuffling \<open>x\<close> up by \<open>offset\<close> and accumulating into the lanes with
  \<^verbatim>\<open>lane::index() >= offset\<close>. The accumulator \<^verbatim>\<open>acc_op(x, shuffled)\<close> stores
  \<open>op x shuffled\<close> in \<open>x\<close>. The offset starts at 1 and doubles, so it is positive
  throughout; the test \<open>0 < offset\<close> only makes the recursion well-founded.
\<close>

function scan_ladder :: "('a \<Rightarrow> 'a \<Rightarrow> 'a) \<Rightarrow> nat \<Rightarrow> 'a list \<Rightarrow> 'a list" where
  "scan_ladder op offset x =
     (if 0 < offset \<and> offset < warp_size then
        (let shuffled = shfl_up x offset
         in scan_ladder op (2 * offset)
              (map (\<lambda>lane. if offset \<le> lane then op (x ! lane) (shuffled ! lane) else x ! lane)
                 [0..<length x]))
      else x)"
  by pat_completeness auto
termination
  by (relation "measure (\<lambda>(op, offset, x). warp_size - offset)") auto

declare scan_ladder.simps [simp del]

text \<open>\<^verbatim>\<open>scan<ReductionOp, InputDatum, Inclusivity>(value)\<close> over the values \<open>v\<close> of the
  group; \<open>neutral_value\<close> is \<^verbatim>\<open>op.neutral_value()\<close>.\<close>

definition scan :: "('a \<Rightarrow> 'a \<Rightarrow> 'a) \<Rightarrow> 'a \<Rightarrow> inclusivity_t \<Rightarrow> 'a list \<Rightarrow> 'a list" where
  "scan op neutral_value Inclusivity v =
     (let x = (if Inclusivity = Exclusive then
                 (let preshuffled = shfl_up v 1
                  in map (\<lambda>lane. if lane = first_lane then neutral_value else preshuffled ! lane)
                       [0..<length v])
               else v)
      in scan_ladder op 1 x)"

text \<open>
  What the specification asks of lane \<open>i\<close>: the fold of the values of the lanes
  \<open>0, \<dots>, i\<close>, lane 0 first. \<open>fold_down op v i n\<close> is the fold of the \<open>n + 1\<close> values of
  the lanes \<open>i, i - 1, \<dots>, i - n\<close>, lane \<open>i\<close> first, which is what the ladder
  builds. \<open>singletons\<close> is a group whose lane \<open>i\<close> holds the one-element list \<open>[i]\<close>.
\<close>

primrec prefix_fold :: "('a \<Rightarrow> 'a \<Rightarrow> 'a) \<Rightarrow> 'a list \<Rightarrow> nat \<Rightarrow> 'a" where
  "prefix_fold op v 0 = v ! 0"
| "prefix_fold op v (Suc i) = op (prefix_fold op v i) (v ! Suc i)"

primrec fold_down :: "('a \<Rightarrow> 'a \<Rightarrow> 'a) \<Rightarrow> 'a list \<Rightarrow> nat \<Rightarrow> nat \<Rightarrow> 'a" where
  "fold_down op v i 0 = v ! i"
| "fold_down op v i (Suc n) = op (v ! i) (fold_down op v (i - 1) n)"

definition singletons :: "nat list list" where
  "singletons = map (\<lambda>lane. [lane]) [0..<32]"

section \<open>Run-position encoding: the parameters of a segment\<close>

text \<open>
  Positions, run indices and lengths are natural numbers. The widths \<^verbatim>\<open>IndexSize\<close>
  and \<^verbatim>\<open>PositionOffsetSize\<close> of the source are not modelled: the model describes the
  kernel on inputs whose positions and counts (the block stride past the end of a
  segment included) fit these widths, where no operation wraps and every unsigned
  subtraction has a non-negative result.
\<close>

record segment_decompression_params_t =
  first_run_index :: nat
  num_runs :: nat
  uncompressed_start_position :: nat
  decompressed_length :: nat

text \<open>\<^verbatim>\<open>resolve_segment_decompression_params\<close> for the block \<open>block_index\<close>
  (\<^verbatim>\<open>grid_info::linear::block::index()\<close>).\<close>

definition resolve_segment_decompression_params ::
  "nat list \<Rightarrow> nat list \<Rightarrow> nat \<Rightarrow> nat \<Rightarrow> nat \<Rightarrow> nat \<Rightarrow> nat \<Rightarrow> segment_decompression_params_t" where
  "resolve_segment_decompression_params run_start_positions position_anchors anchoring_period
       num_anchors num_element_runs total_uncompressed_length block_index =
     (let anchor_index = block_index;
          next_anchor_index = block_index + 1;
          start_position = anchor_index * anchoring_period;
          is_last_segment = (next_anchor_index = num_anchors);
          first = position_anchors ! anchor_index;
          one_past_last_run_index =
            (if is_last_segment then num_element_runs
             else (let run_index_at_next_anchor = position_anchors ! next_anchor_index;
                       next_uncompressed_segment_start_position = start_position + anchoring_period
                   in run_index_at_next_anchor +
                      (if run_start_positions ! run_index_at_next_anchor
                            < next_uncompressed_segment_start_position then 1 else 0)))
      in \<lparr>first_run_index = first,
          num_runs = one_past_last_run_index - first,
          uncompressed_start_position = start_position,
          decompressed_length =
            (if is_last_segment then total_uncompressed_length - start_position
             else anchoring_period)\<rparr>)"

section \<open>Run-position encoding: decompressing a segment\<close>

text \<open>
  The template parameters that matter and the launch: the size in bytes of an
  uncompressed element, whether run positions are relative to the segment, and the
  number of threads of a block (\<^verbatim>\<open>grid_info::linear::block::length()\<close>).
\<close>

record launch_t =
  UncompressedSize :: nat
  PositionsAreRelative :: bool
  block_length :: nat

definition elements_per_thread_write :: "launch_t \<Rightarrow> nat" where
  "elements_per_thread_write cfg =
     (if 4 \<le> UncompressedSize cfg then 1 else 4 div UncompressedSize cfg)"

definition truncated_decompressed_length :: "launch_t \<Rightarrow> segment_decompression_params_t \<Rightarrow> nat" where
  "truncated_decompressed_length cfg params =
     clear_lower_k_bits (decompressed_length params) (log2_constexpr (elements_per_thread_write cfg))"

text \<open>The run-iteration loop of the source:
  \<^verbatim>\<open>for(; run_index < params.num_runs; run_index++) if (run_start_positions[run_index] > position) break;\<close>\<close>

function run_iteration_loop :: "nat list \<Rightarrow> nat \<Rightarrow> nat \<Rightarrow> nat \<Rightarrow> nat" where
  "run_iteration_loop run_start_positions n position run_index =
     (if run_index < n then
        (if position < run_start_positions ! run_index then run_index
         else run_iteration_loop run_start_positions n position (run_index + 1))
      else run_index)"
  by pat_completeness auto
termination
  by (relation "measure (\<lambda>(run_start_positions, n, position, run_index). n - run_index)") auto

declare run_iteration_loop.simps [simp del]

text \<open>
  The loop over \<^verbatim>\<open>element_within_thread_write\<close>, with \<open>remaining\<close> iterations to go.
  It returns the buffer and the final \<^verbatim>\<open>run_index\<close>; the run index is not reset
  between elements.
\<close>

fun fill_thread_write_buffer ::
  "nat list \<Rightarrow> 'a list \<Rightarrow> nat \<Rightarrow> nat \<Rightarrow> nat \<Rightarrow> nat \<Rightarrow> nat \<Rightarrow> 'a list \<times> nat" where
  "fill_thread_write_buffer run_start_positions run_data n write_position 0
       element_within_thread_write run_index = ([], run_index)"
| "fill_thread_write_buffer run_start_positions run_data n write_position (Suc remaining)
       element_within_thread_write run_index =
     (let run_index' = run_iteration_loop run_start_positions n
                         (write_position + element_within_thread_write) run_index;
          run_covering_current_element = run_index' - 1;
          (buffer, run_index'') =
             fill_thread_write_buffer run_start_positions run_data n write_position remaining
               (element_within_thread_write + 1) run_index'
      in (run_data ! run_covering_current_element # buffer, run_index''))"

text \<open>
  The lambda \<^verbatim>\<open>locate_and_perform_next_write\<close> up to its write: the writes of one lane
  to \<^verbatim>\<open>decompressed\<close> (offsets from the pointer the segment routine receives) and
  its \<^verbatim>\<open>run_covering_current_element\<close>.
\<close>

definition locate_and_perform_next_write ::
  "launch_t \<Rightarrow> nat list \<Rightarrow> 'a list \<Rightarrow> segment_decompression_params_t \<Rightarrow> nat \<Rightarrow> nat
     \<Rightarrow> (nat \<times> 'a) list \<times> nat" where
  "locate_and_perform_next_write cfg run_start_positions run_data params
       first_possible_run relative_position =
     (let write_position = relative_position +
            (if PositionsAreRelative cfg then 0 else uncompressed_start_position params);
          run_index = first_possible_run + 1;
          (thread_write_buffer, run_index') =
             fill_thread_write_buffer run_start_positions run_data (num_runs params)
               write_position (elements_per_thread_write cfg) 0 run_index;
          run_covering_current_element = run_index' - 1
      in (map (\<lambda>e. (write_position + e, thread_write_buffer ! e))
            [0..<elements_per_thread_write cfg],
          run_covering_current_element))"

text \<open>
  The variables of a lane that live across the rounds. The lanes of a warp run in
  lockstep: a round of the block-stride loop is executed by the lanes whose loop
  test holds (\<open>in_main_loop\<close>); the others wait.
\<close>

record lane_state =
  relative_write_position :: nat
  first_possible_run_for_next_write :: nat

definition in_main_loop :: "launch_t \<Rightarrow> segment_decompression_params_t \<Rightarrow> lane_state \<Rightarrow> bool" where
  "in_main_loop cfg params l =
     (relative_write_position l < truncated_decompressed_length cfg params)"

text \<open>The end of the lambda: the next position of the thread, and the adoption of the
  run found by the last lane when that position is still inside the segment.\<close>

definition block_stride :: "launch_t \<Rightarrow> nat" where
  "block_stride cfg = block_length cfg * elements_per_thread_write cfg"

definition after_write ::
  "launch_t \<Rightarrow> segment_decompression_params_t \<Rightarrow> nat \<Rightarrow> lane_state \<Rightarrow> lane_state" where
  "after_write cfg params from_last_lane l =
     (let next_relative_write_position_for_this_thread =
            relative_write_position l + block_stride cfg
      in \<lparr>relative_write_position = next_relative_write_position_for_this_thread,
          first_possible_run_for_next_write =
            (if next_relative_write_position_for_this_thread < decompressed_length params
             then from_last_lane else first_possible_run_for_next_write l)\<rparr>)"

text \<open>
  The registers \<^verbatim>\<open>run_covering_current_element\<close> of the lanes in one round, as
  \<^verbatim>\<open>get_from_last_lane\<close> reads them. The register of a lane that does not execute the
  round is not initialised; its content is the parameter \<open>indeterminate\<close>.
\<close>

definition run_covering_registers ::
  "launch_t \<Rightarrow> nat \<Rightarrow> nat list \<Rightarrow> 'a list \<Rightarrow> segment_decompression_params_t
     \<Rightarrow> lane_state list \<Rightarrow> nat list" where
  "run_covering_registers cfg indeterminate run_start_positions run_data params lanes =
     map (\<lambda>l. if in_main_loop cfg params l
               then snd (locate_and_perform_next_write cfg run_start_positions run_data params
                           (first_possible_run_for_next_write l) (relative_write_position l))
               else indeterminate) lanes"

definition main_loop_round ::
  "launch_t \<Rightarrow> nat \<Rightarrow> nat list \<Rightarrow> 'a list \<Rightarrow> segment_decompression_params_t
     \<Rightarrow> lane_state list \<Rightarrow> lane_state list \<times> (nat \<times> 'a) list" where
  "main_loop_round cfg indeterminate run_start_positions run_data params lanes =
     (let from_last_lane = get_from_last_lane
            (run_covering_registers cfg indeterminate run_start_positions run_data params lanes)
      in (map (\<lambda>l. if in_main_loop cfg params l then after_write cfg params from_last_lane l
                    else l) lanes,
          concat (map (\<lambda>l. if in_main_loop cfg params l
                            then fst (locate_and_perform_next_write cfg run_start_positions
                                        run_data params (first_possible_run_for_next_write l)
                                        (relative_write_position l))
                            else []) lanes)))"

text \<open>
  The block-stride loop of one warp. It returns the lanes after the loop and the
  writes in program order. A block has at least one thread, so the stride is positive in
  every execution; the test \<open>0 < block_stride cfg\<close> only makes the recursion
  well-founded.
\<close>

lemma relative_write_position_after_write [simp]:
  "relative_write_position (after_write cfg params f l) = relative_write_position l + block_stride cfg"
  by (simp add: after_write_def Let_def)

lemma sum_list_map_less:
  fixes f g :: "'b \<Rightarrow> nat"
  assumes "\<And>x. x \<in> set xs \<Longrightarrow> f x \<le> g x" "\<exists>x \<in> set xs. f x < g x"
  shows "sum_list (map f xs) < sum_list (map g xs)"
  using assms
proof (induction xs)
  case Nil
  then show ?case by simp
next
  case (Cons a xs)
  have le: "sum_list (map f xs) \<le> sum_list (map g xs)"
    using Cons.prems(1) by (intro sum_list_mono) simp
  show ?case
  proof (cases "f a < g a")
    case True
    then show ?thesis using le by simp
  next
    case False
    then have "\<exists>x \<in> set xs. f x < g x" using Cons.prems(2) by auto
    then have "sum_list (map f xs) < sum_list (map g xs)"
      using Cons.IH Cons.prems(1) by simp
    moreover have "f a \<le> g a" using Cons.prems(1) by simp
    ultimately show ?thesis by simp
  qed
qed

lemma main_loop_round_measure:
  assumes "0 < block_stride cfg"
    and "list_ex (in_main_loop cfg params) lanes"
  shows "sum_list (map (\<lambda>l. truncated_decompressed_length cfg params - relative_write_position l)
             (fst (main_loop_round cfg ind S D params lanes)))
       < sum_list (map (\<lambda>l. truncated_decompressed_length cfg params - relative_write_position l)
             lanes)"
proof -
  obtain x where x: "x \<in> set lanes" "in_main_loop cfg params x"
    using assms(2) by (auto simp: list_ex_iff)
  have "relative_write_position x < truncated_decompressed_length cfg params"
    using x(2) by (simp add: in_main_loop_def)
  then have "\<exists>x\<in>set lanes. truncated_decompressed_length cfg params - relative_write_position
             (if in_main_loop cfg params x then after_write cfg params f x else x)
          < truncated_decompressed_length cfg params - relative_write_position x" for f
    using x assms(1) by (intro bexI [of _ x]) simp_all
  note strict = this
  show ?thesis
    unfolding main_loop_round_def Let_def fst_conv map_map comp_def
  proof (rule sum_list_map_less)
    fix l f
    show "truncated_decompressed_length cfg params - relative_write_position
             (if in_main_loop cfg params l then after_write cfg params f l else l)
          \<le> truncated_decompressed_length cfg params - relative_write_position l"
      by (cases "in_main_loop cfg params l") (simp_all add: diff_le_mono2)
  qed (rule strict)
qed

function main_loop ::
  "launch_t \<Rightarrow> nat \<Rightarrow> nat list \<Rightarrow> 'a list \<Rightarrow> segment_decompression_params_t
     \<Rightarrow> lane_state list \<Rightarrow> lane_state list \<times> (nat \<times> 'a) list" where
  "main_loop cfg indeterminate run_start_positions run_data params lanes =
     (if 0 < block_stride cfg \<and> list_ex (in_main_loop cfg params) lanes then
        (let round = main_loop_round cfg indeterminate run_start_positions run_data params lanes;
             rest = main_loop cfg indeterminate run_start_positions run_data params (fst round)
         in (fst rest, snd round @ snd rest))
      else (lanes, []))"
  by pat_completeness auto
termination
  by (relation "measure (\<lambda>(cfg, indeterminate, run_start_positions, run_data, params, lanes).
        sum_list (map (\<lambda>l. truncated_decompressed_length cfg params - relative_write_position l) lanes))")
     (auto intro: main_loop_round_measure)

declare main_loop.simps [simp del]

text \<open>
  The slack. \<open>index_in_block\<close> is \<^verbatim>\<open>thread::index_in_block()\<close> of a lane of the warp
  \<open>warp_index\<close>; every thread starts the main loop at its index times the packing
  factor, with the run bound 0.
\<close>

definition index_in_block :: "nat \<Rightarrow> nat \<Rightarrow> nat" where
  "index_in_block warp_index lane = warp_index * warp_size + lane"

definition initial_lanes :: "launch_t \<Rightarrow> nat \<Rightarrow> lane_state list" where
  "initial_lanes cfg warp_index =
     map (\<lambda>lane. \<lparr>relative_write_position =
                      index_in_block warp_index lane * elements_per_thread_write cfg,
                    first_possible_run_for_next_write = 0\<rparr>) [0..<warp_size]"

text \<open>The \<^verbatim>\<open>while\<close> loop of the slack write, and the single-element write of one
  lane.\<close>

function slack_run_loop :: "nat list \<Rightarrow> nat \<Rightarrow> nat \<Rightarrow> nat \<Rightarrow> nat" where
  "slack_run_loop run_start_positions n slack_write_position run_index =
     (if run_index < n \<and> run_start_positions ! run_index \<le> slack_write_position
      then slack_run_loop run_start_positions n slack_write_position (run_index + 1)
      else run_index)"
  by pat_completeness auto
termination
  by (relation "measure (\<lambda>(run_start_positions, n, slack_write_position, run_index). n - run_index)")
     auto

declare slack_run_loop.simps [simp del]

definition slack_write ::
  "launch_t \<Rightarrow> nat list \<Rightarrow> 'a list \<Rightarrow> segment_decompression_params_t \<Rightarrow> nat \<Rightarrow> nat
     \<Rightarrow> (nat \<times> 'a) list" where
  "slack_write cfg run_start_positions run_data params first_possible_run lane =
     (let num_actually_decompressed = truncated_decompressed_length cfg params;
          slack_write_position = num_actually_decompressed + lane +
            (if PositionsAreRelative cfg then 0 else uncompressed_start_position params);
          run_index = slack_run_loop run_start_positions (num_runs params) slack_write_position
                        (first_possible_run + 1);
          run_covering_current_element = run_index - 1
      in [(slack_write_position, run_data ! run_covering_current_element)])"

text \<open>
  The run bound before the slack writes when full-width writes were made: the copy of
  the lane that wrote the last full-width element is broadcast with
  \<^verbatim>\<open>update_from_lane\<close>. All lanes of the warp execute the vote and the broadcast.
\<close>

definition this_thread_wrote_last_element_so_far ::
  "launch_t \<Rightarrow> segment_decompression_params_t \<Rightarrow> lane_state \<Rightarrow> bool" where
  "this_thread_wrote_last_element_so_far cfg params l =
     (relative_write_position l =
        (truncated_decompressed_length cfg params - elements_per_thread_write cfg)
          + elements_per_thread_write cfg * block_length cfg)"

definition rederived_first_possible_runs ::
  "launch_t \<Rightarrow> segment_decompression_params_t \<Rightarrow> lane_state list \<Rightarrow> nat list" where
  "rederived_first_possible_runs cfg params lanes =
     (let lane_which_wrote_the_last_element_so_far =
            first_lane_satisfying (map (\<lambda>_. True) lanes)
              (map (this_thread_wrote_last_element_so_far cfg params) lanes);
          lane_which_saw_the_farthest_run_so_far = lane_which_wrote_the_last_element_so_far
      in update_from_lane (map first_possible_run_for_next_write lanes)
           lane_which_saw_the_farthest_run_so_far)"

text \<open>The part of the source after the main loop (\<^verbatim>\<open>if (elements_per_thread_write > 1)\<close>):
  the slack writes of the warp \<open>warp_index\<close>, given its lanes after the loop.\<close>

definition handle_slack ::
  "launch_t \<Rightarrow> nat list \<Rightarrow> 'a list \<Rightarrow> segment_decompression_params_t \<Rightarrow> nat
     \<Rightarrow> lane_state list \<Rightarrow> (nat \<times> 'a) list" where
  "handle_slack cfg run_start_positions run_data params warp_index lanes =
     (if 1 < elements_per_thread_write cfg then
        (let num_actually_decompressed = truncated_decompressed_length cfg params;
             num_slack_elements = decompressed_length params - num_actually_decompressed
         in if num_slack_elements = 0 then []
            else if truncated_decompressed_length cfg params = 0 then
              concat (map (\<lambda>lane. if num_slack_elements \<le> index_in_block warp_index lane then []
                                   else slack_write cfg run_start_positions run_data params 0 lane)
                        [0..<warp_size])
            else if all_satisfy (map (\<lambda>_. True) lanes)
                      (map (\<lambda>l. \<not> this_thread_wrote_last_element_so_far cfg params l) lanes)
              then []
            else
              (let first_possible_run = rederived_first_possible_runs cfg params lanes
               in concat (map (\<lambda>lane. if num_slack_elements \<le> lane then []
                                      else slack_write cfg run_start_positions run_data params
                                             (first_possible_run ! lane) lane)
                            [0..<warp_size])))
      else [])"

text \<open>\<^verbatim>\<open>decompress_a_segment_with_few_runs\<close> and \<^verbatim>\<open>decompress_segment\<close>, as run
  by one warp of the block: the writes of its lanes.\<close>

definition decompress_a_segment_with_few_runs ::
  "launch_t \<Rightarrow> nat \<Rightarrow> nat list \<Rightarrow> 'a list \<Rightarrow> segment_decompression_params_t \<Rightarrow> nat
     \<Rightarrow> (nat \<times> 'a) list" where
  "decompress_a_segment_with_few_runs cfg indeterminate run_start_positions run_data params
       warp_index =
     (let after_loop = main_loop cfg indeterminate run_start_positions run_data params
                         (initial_lanes cfg warp_index)
      in snd after_loop
         @ handle_slack cfg run_start_positions run_data params warp_index (fst after_loop))"

definition decompress_segment ::
  "launch_t \<Rightarrow> nat \<Rightarrow> nat list \<Rightarrow> 'a list \<Rightarrow> segment_decompression_params_t \<Rightarrow> nat
     \<Rightarrow> (nat \<times> 'a) list" where
  "decompress_segment cfg indeterminate run_start_positions run_data params warp_index =
     decompress_a_segment_with_few_runs cfg indeterminate run_start_positions run_data params
       warp_index"

section \<open>Run-position encoding: the kernel\<close>

text \<open>
  The kernel \<^verbatim>\<open>decompress\<close> for one warp of the block \<open>block_index\<close>. The pointers
  handed to the segment routine are offset: \<^verbatim>\<open>decompressed\<close> by the start of the
  segment when positions are relative, the run arrays by \<^verbatim>\<open>first_run_index\<close>. The
  writes returned are offsets into the whole output buffer.
\<close>

definition decompress ::
  "launch_t \<Rightarrow> nat \<Rightarrow> 'a list \<Rightarrow> nat list \<Rightarrow> nat list \<Rightarrow> nat \<Rightarrow> nat \<Rightarrow> nat \<Rightarrow> nat
     \<Rightarrow> nat \<Rightarrow> nat \<Rightarrow> (nat \<times> 'a) list" where
  "decompress cfg indeterminate run_data run_start_positions position_anchors anchoring_period
       num_anchors num_element_runs uncompressed_length block_index warp_index =
     (let block_params = resolve_segment_decompression_params run_start_positions
            position_anchors anchoring_period num_anchors num_element_runs uncompressed_length
            block_index;
          decompressed_offset =
            (if PositionsAreRelative cfg then uncompressed_start_position block_params else 0)
      in map (\<lambda>(position, v). (decompressed_offset + position, v))
           (decompress_segment cfg indeterminate
              (drop (first_run_index block_params) run_start_positions)
              (drop (first_run_index block_params) run_data)
              block_params warp_index))"

text \<open>
  The launch, from \<^verbatim>\<open>launch_config_resolution_params_t\<close>: one block per anchored
  segment, \<^verbatim>\<open>div_rounding_up(uncompressed_length, position_anchoring_period)\<close> blocks
  of \<open>block_length cfg div warp_size\<close> warps. \<open>decompress_by_block\<close> collects the
  writes of the warps of one block, \<open>launch_decompress\<close> those of the whole grid. (Modelled from the spec:
  \<^verbatim>\<open>util::div_rounding_up\<close> is not among the sources; it is the quotient rounded up.)
  The output buffer after the kernel is the memory with all writes applied.
\<close>

definition div_rounding_up :: "nat \<Rightarrow> nat \<Rightarrow> nat" where
  "div_rounding_up a b = (a + b - 1) div b"

definition num_anchored_segments :: "nat \<Rightarrow> nat \<Rightarrow> nat" where
  "num_anchored_segments uncompressed_length position_anchoring_period =
     div_rounding_up uncompressed_length position_anchoring_period"

definition decompress_by_block ::
  "launch_t \<Rightarrow> nat \<Rightarrow> 'a list \<Rightarrow> nat list \<Rightarrow> nat list \<Rightarrow> nat \<Rightarrow> nat \<Rightarrow> nat \<Rightarrow> nat
     \<Rightarrow> nat \<Rightarrow> (nat \<times> 'a) list" where
  "decompress_by_block cfg indeterminate run_data run_start_positions position_anchors
       anchoring_period num_anchors num_element_runs uncompressed_length block_index =
     concat (map (\<lambda>warp_index.
        decompress cfg indeterminate run_data run_start_positions position_anchors
          anchoring_period num_anchors num_element_runs uncompressed_length block_index
          warp_index)
       [0..<block_length cfg div warp_size])"

definition launch_decompress ::
  "launch_t \<Rightarrow> nat \<Rightarrow> 'a list \<Rightarrow> nat list \<Rightarrow> nat list \<Rightarrow> nat \<Rightarrow> nat \<Rightarrow> nat \<Rightarrow> nat
     \<Rightarrow> (nat \<times> 'a) list" where
  "launch_decompress cfg indeterminate run_data run_start_positions position_anchors
       anchoring_period num_anchors num_element_runs uncompressed_length =
     concat (map (\<lambda>block_index.
        decompress_by_block cfg indeterminate run_data run_start_positions position_anchors
          anchoring_period num_anchors num_element_runs uncompressed_length block_index)
       [0..<num_anchored_segments uncompressed_length anchoring_period])"

definition apply_writes :: "(nat \<times> 'a) list \<Rightarrow> 'a list \<Rightarrow> 'a list" where
  "apply_writes writes memory = fold (\<lambda>(position, v) m. m[position := v]) writes memory"

section \<open>Run-position encoding: the encoder\<close>

text \<open>
  Modelled from the spec: the encoder is not among the sources. An array partitioned
  into runs is a list of pairs of a value and a length. The run table holds one start
  position and one value per run, the start positions being absolute offsets; a run
  covers the positions from its start up to the start of the next run. The anchor table
  holds, for every anchoring period \<open>k\<close>, the index of the run covering the position
  \<open>k * anchoring_period\<close>.
\<close>

fun run_starts :: "nat \<Rightarrow> ('a \<times> nat) list \<Rightarrow> nat list" where
  "run_starts position [] = []"
| "run_starts position (r # rs) = position # run_starts (position + snd r) rs"

definition uncompressed_of :: "('a \<times> nat) list \<Rightarrow> 'a list" where
  "uncompressed_of runs = concat (map (\<lambda>r. replicate (snd r) (fst r)) runs)"

definition run_covering :: "nat list \<Rightarrow> nat \<Rightarrow> nat" where
  "run_covering starts position = length (filter (\<lambda>s. s \<le> position) starts) - 1"

record 'a rpe_t =
  rpe_run_data :: "'a list"
  rpe_run_start_positions :: "nat list"
  rpe_position_anchors :: "nat list"

definition rpe_encode :: "('a \<times> nat) list \<Rightarrow> nat \<Rightarrow> 'a rpe_t" where
  "rpe_encode runs anchoring_period =
     (let starts = run_starts 0 runs
      in \<lparr>rpe_run_data = map fst runs,
          rpe_run_start_positions = starts,
          rpe_position_anchors =
            map (\<lambda>k. run_covering starts (k * anchoring_period))
              [0..<num_anchored_segments (length (uncompressed_of runs)) anchoring_period]\<rparr>)"

definition rpe_decode :: "launch_t \<Rightarrow> nat \<Rightarrow> 'a rpe_t \<Rightarrow> nat \<Rightarrow> nat \<Rightarrow> (nat \<times> 'a) list" where
  "rpe_decode cfg indeterminate c anchoring_period uncompressed_length =
     launch_decompress cfg indeterminate (rpe_run_data c) (rpe_run_start_positions c)
       (rpe_position_anchors c) anchoring_period (length (rpe_position_anchors c))
       (length (rpe_run_data c)) uncompressed_length"

text \<open>Concrete inputs: elements of two bytes in blocks of one warp, with absolute
  positions; a segment of 65 elements in three runs.\<close>

definition cfg2 :: launch_t where
  "cfg2 = \<lparr>UncompressedSize = 2, PositionsAreRelative = False, block_length = 32\<rparr>"

definition slack_example_params :: segment_decompression_params_t where
  "slack_example_params = \<lparr>first_run_index = 0, num_runs = 3, uncompressed_start_position = 0,
      decompressed_length = 65\<rparr>"

definition slack_example_lanes :: "lane_state list" where
  "slack_example_lanes = fst (main_loop cfg2 0 [0, 10, 63] [7, 9, 4 :: nat] slack_example_params
      (initial_lanes cfg2 0))"

section \<open>Run-position encoding: reference functions for the written positions\<close>

text \<open>
  What one thread of the block-stride loop does when it is looked at on its own, without
  the other lanes: starting at \<open>position\<close> it writes \<open>epw\<close> consecutive elements and
  advances by \<open>stride\<close> as long as its position is below \<open>bound\<close>. \<open>thread_positions\<close>
  lists the positions it writes, \<open>thread_final_position\<close> is its position after the
  loop. They are compared with \<open>main_loop\<close> below.
\<close>

function thread_positions :: "nat \<Rightarrow> nat \<Rightarrow> nat \<Rightarrow> nat \<Rightarrow> nat list" where
  "thread_positions stride epw bound position =
     (if 0 < stride \<and> position < bound then
        map (\<lambda>e. position + e) [0..<epw] @ thread_positions stride epw bound (position + stride)
      else [])"
  by pat_completeness auto
termination
  by (relation "measure (\<lambda>(stride, epw, bound, position). bound - position)") auto

declare thread_positions.simps [simp del]

function thread_final_position :: "nat \<Rightarrow> nat \<Rightarrow> nat \<Rightarrow> nat" where
  "thread_final_position stride bound position =
     (if 0 < stride \<and> position < bound then thread_final_position stride bound (position + stride)
      else position)"
  by pat_completeness auto
termination
  by (relation "measure (\<lambda>(stride, bound, position). bound - position)") auto

declare thread_final_position.simps [simp del]

text \<open>The term the source adds to a relative position before it is used as an index
  into \<^verbatim>\<open>decompressed\<close>
  (\<^verbatim>\<open>positions_are_relative ? 0 : params.uncompressed_start_position\<close>).\<close>

definition write_base :: "launch_t \<Rightarrow> segment_decompression_params_t \<Rightarrow> nat" where
  "write_base cfg params =
     (if PositionsAreRelative cfg then 0 else uncompressed_start_position params)"

text \<open>The warp of the thread that wrote the last full-width element of a segment; it
  is the warp that writes the slack. When nothing was written at full width, the slack
  is written by the first threads of the block.\<close>

definition slack_warp :: "launch_t \<Rightarrow> segment_decompression_params_t \<Rightarrow> nat" where
  "slack_warp cfg params =
     (if truncated_decompressed_length cfg params = 0 then 0
      else ((truncated_decompressed_length cfg params div elements_per_thread_write cfg - 1)
              mod block_length cfg) div warp_size)"

section \<open>Properties of the leader election\<close>

lemma active_lanes_mask_all_lanes: "active_lanes_mask all_lanes = 0xFFFFFFFF"
  by code_simp

lemma active_lanes_mask_lanes_5_and_9: "active_lanes_mask lanes_5_and_9 = 0x220"
  by code_simp

lemma have_a_single_lane_compute_active:
  assumes "d < length active" "active ! d"
  shows "have_a_single_lane_compute f d active g cell = f cell"
proof -
  let ?ran = "map (\<lambda>lane. active ! lane \<and> lane = d) [0..<length active]"
  have ex: "list_ex (\<lambda>r. r) ?ran"
    using assms by (auto simp: list_ex_iff)
  have "?ran ! d" using assms by simp
  then show ?thesis
    using assms ex by (simp add: have_a_single_lane_compute_def Let_def get_from_lane_def shfl_def)
qed

lemma have_a_single_lane_compute_inactive:
  assumes "d < length active" "\<not> active ! d"
  shows "have_a_single_lane_compute f d active g cell = (g, cell)"
proof -
  let ?ran = "map (\<lambda>lane. active ! lane \<and> lane = d) [0..<length active]"
  have ex: "\<not> list_ex (\<lambda>r. r) ?ran"
    using assms by (auto simp: list_ex_iff)
  then show ?thesis
    using assms by (simp add: have_a_single_lane_compute_def Let_def get_from_lane_def shfl_def)
qed

text \<open>
  C5. On the mask with only lanes 5 and 9 set, the code returns 22 (the leading
  zero-count) with \<open>PreferFirstLane\<close> and 5 (the trailing zero-count) without it, where the
  claim expects 5 and 9.
\<close>

theorem select_leader_lane_on_lanes_5_and_9:
  "detail_select_leader_lane True 0x220 = 22 \<and> detail_select_leader_lane False 0x220 = 5
   \<and> select_leader_lane True lanes_5_and_9 = 22 \<and> select_leader_lane False lanes_5_and_9 = 5"
  by code_simp

text \<open>
  C8. The rank returned to lane 5 is 1 whatever the executing lanes are, not the
  population count 5 of the mask of the lanes below it: the count is
  turned into a boolean by the return type of the \<^verbatim>\<open>detail\<close> function.
\<close>

theorem lane_index_among_active_lanes_of_lane_5:
  "lane_index_among_active_lanes active 5 = 1"
proof -
  have "population_count (push_bit 5 1 - 1) \<noteq> 0" by code_simp
  then show ?thesis
    by (simp add: lane_index_among_active_lanes_def detail_lane_index_among_active_lanes_def)
qed

text \<open>
  C9. With all 32 lanes executing and the counter at \<open>c\<close>, the leader adds 32 once, and
  lane 5 receives \<open>c + 1\<close> rather than \<open>c + 5\<close>. With only lanes 5 and 9 executing, the
  elected lane 22 is not executing: nobody adds, the counter
  stays at \<open>c\<close>.
\<close>

theorem active_lanes_increment_at_lane_5:
  "active_lanes_increment all_lanes g c 5 = (c + 32, c + 1)
   \<and> fst (active_lanes_increment lanes_5_and_9 g c 5) = c"
proof -
  have m: "population_count 0xFFFFFFFF = 32" by code_simp
  have l: "detail_select_leader_lane True 0xFFFFFFFF = 0" by code_simp
  have r: "detail_lane_index_among_active_lanes 0xFFFFFFFF 5" by code_simp
  have a: "0 < length all_lanes" "all_lanes ! 0" by code_simp+
  have one: "active_lanes_increment all_lanes g c 5 = (c + 32, c + 1)"
    by (simp add: active_lanes_increment_def active_lanes_mask_all_lanes m l r
        have_a_single_lane_compute_active [OF a] atomic_add_def)
  have l': "detail_select_leader_lane True 0x220 = 22" by code_simp
  have a': "22 < length lanes_5_and_9" "\<not> lanes_5_and_9 ! 22" by code_simp+
  have two: "fst (active_lanes_increment lanes_5_and_9 g c 5) = c"
    by (simp add: active_lanes_increment_def active_lanes_mask_lanes_5_and_9 l'
        have_a_single_lane_compute_inactive [OF a'] Let_def)
  show ?thesis using one two by simp
qed

section \<open>Properties of the sorted search and of the bulk copy\<close>

text \<open>
  C4. In the sorted group \<open>tens\<close>, with every needle equal to the lane's own hay value,
  the code finds nothing for any of the first four lanes (nor for any other lane): lane 0
  searches the empty range of lanes \<open>[0, 0)\<close>, and the shuffles read the needles, where the
  claim expects the lanes 1, 2, 3 with the values 20, 30, 40.
\<close>

theorem multisearch_of_tens:
  "map (multisearch tens tens) [0, 1, 2, 3]
     = replicate 4 \<lparr>lane_index = 32, result_value = None\<rparr>
   \<and> multisearch tens tens 31 = \<lparr>lane_index = 32, result_value = None\<rparr>"
  by code_simp

text \<open>
  C10. Copying \<open>n = 2\<close> elements of a two-byte type (packing factor 2) with
  \<^verbatim>\<open>MayHaveSlack\<close>: lane 0 makes the packed write of the offsets 0 and 1, and
  then every lane, lane 5 for one, writes the offset 2, which lies outside \<open>[0, 2)\<close>.
\<close>

theorem copy_n_of_two_elements:
  "copy_n 2 True True source 2 0 = [(0, source 0), (1, source 1), (2, source 2)]
   \<and> copy_n 2 True True source 2 5 = [(2, source 2)]"
  by (simp add: copy_n_def elements_per_full_warp_write_def clear_lower_k_bits_def
      log2_constexpr_values warp_size_def upt_conv_Cons)

section \<open>Properties of the prefix scan\<close>

lemma fold_down_split:
  assumes assoc: "\<And>a b c. op (op a b) c = op a (op b c)"
  shows "fold_down op v i (m + n + 1) = op (fold_down op v i m) (fold_down op v (i - m - 1) n)"
proof (induction m arbitrary: i)
  case 0
  show ?case by simp
next
  case (Suc m)
  have "fold_down op v i (Suc m + n + 1) = op (v ! i) (fold_down op v (i - 1) (m + n + 1))"
    by simp
  also have "\<dots> = op (v ! i) (op (fold_down op v (i - 1) m) (fold_down op v (i - 1 - m - 1) n))"
    by (simp only: Suc.IH)
  also have "\<dots> = op (fold_down op v i (Suc m)) (fold_down op v (i - Suc m - 1) n)"
    by (simp add: assoc)
  finally show ?case .
qed


lemma scan_ladder_fold_down:
  assumes assoc: "\<And>a b c. op (op a b) c = op a (op b c)"
  shows "length x = warp_size \<Longrightarrow> 0 < offset
     \<Longrightarrow> (\<And>i. i < warp_size \<Longrightarrow> x ! i = fold_down op v i (min i (offset - 1)))
     \<Longrightarrow> i < warp_size \<Longrightarrow> scan_ladder op offset x ! i = fold_down op v i i"
  using assoc
proof (induction op offset x arbitrary: i rule: scan_ladder.induct)
  case (1 op offset x)
  note assoc' = "1.prems"(5)
  show ?case
  proof (cases "offset < warp_size")
    case False
    then have "min i (offset - 1) = i" using "1.prems" by simp
    then show ?thesis
      using False "1.prems"(3) [of i] "1.prems"(4) by (simp add: scan_ladder.simps [of op offset x])
  next
    case True
    let ?x' = "map (\<lambda>lane. if offset \<le> lane then op (x ! lane) (shfl_up x offset ! lane) else x ! lane)
                 [0..<length x]"
    have step: "?x' ! j = fold_down op v j (min j (2 * offset - 1))" if j: "j < warp_size" for j
    proof (cases "offset \<le> j")
      case False
      then have "min j (offset - 1) = j" "min j (2 * offset - 1) = j" by simp_all
      then show ?thesis using False j "1.prems"(1) "1.prems"(3) [OF j] by simp
    next
      case True
      have m: "min j (offset - 1) = offset - 1" using True "1.prems"(2) by simp
      have a: "x ! j = fold_down op v j (offset - 1)"
        using "1.prems"(3) [OF j] m by simp
      have b: "x ! (j - offset) = fold_down op v (j - offset) (min (j - offset) (offset - 1))"
        using "1.prems"(3) [of "j - offset"] j by simp
      have e: "min j (2 * offset - 1) = (offset - 1) + min (j - offset) (offset - 1) + 1"
        using True "1.prems"(2) by arith
      have "fold_down op v j (min j (2 * offset - 1))
          = op (fold_down op v j (offset - 1))
               (fold_down op v (j - (offset - 1) - 1) (min (j - offset) (offset - 1)))"
        unfolding e by (rule fold_down_split) (rule assoc')
      moreover have "j - (offset - 1) - 1 = j - offset" using "1.prems"(2) by simp
      moreover have "?x' ! j = op (x ! j) (x ! (j - offset))"
        using True j "1.prems"(1) by (simp add: shfl_up_def)
      ultimately show ?thesis using a b by simp
    qed
    have "scan_ladder op offset x = scan_ladder op (2 * offset) ?x'"
      using True "1.prems"(2) by (simp add: scan_ladder.simps [of op offset x] Let_def)
    moreover have "scan_ladder op (2 * offset) ?x' ! i = fold_down op v i i"
    proof (rule "1.IH")
      show "0 < offset \<and> offset < warp_size" using True "1.prems"(2) by simp
      show "shfl_up x offset = shfl_up x offset" by simp
      show "length ?x' = warp_size" using "1.prems"(1) by simp
      show "0 < 2 * offset" using "1.prems"(2) by simp
      show "?x' ! j = fold_down op v j (min j (2 * offset - 1))" if "j < warp_size" for j
        using step [OF that] .
      show "i < warp_size" by (rule "1.prems"(4))
      show "\<And>a b c. op (op a b) c = op a (op b c)" by (rule assoc')
    qed
    ultimately show ?thesis by simp
  qed
qed

lemma fold_down_prefix_fold:
  assumes comm: "\<And>a b. op a b = op b a"
  shows "fold_down op v i i = prefix_fold op v i"
proof (induction i)
  case 0
  show ?case by simp
next
  case (Suc i)
  then show ?case by (simp add: comm [of "v ! Suc i"])
qed

lemma scan_inclusive_fold_down:
  assumes "\<And>a b c. op (op a b) c = op a (op b c)" "length v = warp_size" "i < warp_size"
  shows "scan op e Inclusive v ! i = fold_down op v i i"
proof -
  have "scan_ladder op 1 v ! i = fold_down op v i i"
    using assms by (intro scan_ladder_fold_down) simp_all
  moreover have "scan op e Inclusive v = scan_ladder op 1 v"
    by (simp only: scan_def Let_def inclusivity_t.distinct if_False)
  ultimately show ?thesis by (simp only:)
qed

lemma fold_down_shifted:
  assumes neutral: "\<And>a. op a e = a"
    and x: "\<And>j. x ! j = (if j = 0 then e else v ! (j - 1))"
  shows "fold_down op x (Suc i) (Suc i) = fold_down op v i i"
proof (induction i)
  case 0
  show ?case by (simp add: x neutral)
next
  case (Suc i)
  have "fold_down op x (Suc (Suc i)) (Suc (Suc i)) = op (x ! Suc (Suc i)) (fold_down op x (Suc i) (Suc i))"
    by simp
  then show ?case using Suc by (simp add: x)
qed

lemma scan_exclusive_fold_down:
  assumes assoc: "\<And>a b c. op (op a b) c = op a (op b c)"
    and neutral: "\<And>a. op a e = a"
    and len: "length v = warp_size" and i: "i < warp_size"
  shows "scan op e Exclusive v ! i = (if i = 0 then e else fold_down op v (i - 1) (i - 1))"
proof -
  let ?x = "map (\<lambda>lane. if lane = first_lane then e else shfl_up v 1 ! lane) [0..<length v]"
  let ?y = "e # v"
  have xy: "?x ! j = ?y ! j" if "j < warp_size" for j
    using that len by (cases j) (simp_all add: first_lane_def shfl_up_def)
  have y: "?y ! j = (if j = 0 then e else v ! (j - 1))" for j
    by (cases j) simp_all
  have fd: "fold_down op ?x j n = fold_down op ?y j n" if "j < warp_size" for j n
    using that
  proof (induction n arbitrary: j)
    case 0
    then show ?case using xy by simp
  next
    case (Suc n)
    have "j - 1 < warp_size" using Suc.prems by simp
    then show ?case using Suc.IH [of "j - 1"] xy [OF Suc.prems] by simp
  qed
  have "scan_ladder op 1 ?x ! i = fold_down op ?x i i"
    using len i assoc by (intro scan_ladder_fold_down) simp_all
  moreover have "scan op e Exclusive v = scan_ladder op 1 ?x"
    by (simp only: scan_def Let_def simp_thms if_True)
  ultimately have "scan op e Exclusive v ! i = fold_down op ?x i i"
    by (simp only:)
  also have "\<dots> = fold_down op ?y i i" using fd [OF i] .
  also have "\<dots> = (if i = 0 then e else fold_down op v (i - 1) (i - 1))"
  proof (cases i)
    case 0
    then show ?thesis by simp
  next
    case (Suc k)
    have "fold_down op ?y (Suc k) (Suc k) = fold_down op v k k"
      by (rule fold_down_shifted [where e = e]) (simp_all add: neutral y)
    then show ?thesis
      unfolding Suc by simp
  qed
  finally show ?thesis .
qed

text \<open>
  C6, as amended. For every operator that is associative and commutative, the
  inclusive scan leaves lane \<open>i\<close> holding the fold of the values of the lanes \<open>0, \<dots>, i\<close>;
  if moreover \<open>e\<close> is neutral for the operator, the exclusive scan leaves lane 0 holding
  \<open>e\<close> and lane \<open>i > 0\<close> holding the fold of the lanes \<open>0, \<dots>, i - 1\<close>. Over 32 lanes each
  holding 1, the inclusive sum scan leaves lane \<open>i\<close> holding \<open>i + 1\<close> and the exclusive one
  leaves it holding \<open>i\<close>.
\<close>

theorem scan_prefix_fold:
  assumes "\<forall>a b c. op (op a b) c = op a (op b c)" and "\<forall>a b. op a b = op b a"
    and "length v = warp_size" and "i < warp_size"
  shows "scan op e Inclusive v ! i = prefix_fold op v i
     \<and> ((\<forall>a. op a e = a) \<longrightarrow>
          scan op e Exclusive v ! i = (if i = 0 then e else prefix_fold op v (i - 1)))
     \<and> scan (+) 0 Inclusive (replicate 32 (1::nat)) = map (\<lambda>lane. lane + 1) [0..<32]
     \<and> scan (+) 0 Exclusive (replicate 32 (1::nat)) = [0..<32]"
proof -
  have assoc: "\<And>a b c. op (op a b) c = op a (op b c)" and comm: "\<And>a b. op a b = op b a"
    using assms(1,2) by simp_all
  have "scan op e Inclusive v ! i = prefix_fold op v i"
    using scan_inclusive_fold_down [of op v i e, OF assoc assms(3,4)]
      fold_down_prefix_fold [of op v i, OF comm] by simp
  moreover have "scan op e Exclusive v ! i = (if i = 0 then e else prefix_fold op v (i - 1))"
    if "\<forall>a. op a e = a"
    using scan_exclusive_fold_down [of op e v i, OF assoc _ assms(3,4)] that
      fold_down_prefix_fold [of op v "i - 1", OF comm] by simp
  moreover have "scan (+) 0 Inclusive (replicate 32 (1::nat)) = map (\<lambda>lane. lane + 1) [0..<32]"
    by code_simp
  moreover have "scan (+) 0 Exclusive (replicate 32 (1::nat)) = [0..<32]"
    by code_simp
  ultimately show ?thesis by blast
qed

text \<open>The hypotheses hold for the sum over 32 lanes each holding 1, at lane 5.\<close>

theorem scan_prefix_fold_witness:
  "(\<forall>a b c :: nat. a + b + c = a + (b + c)) \<and> (\<forall>a b :: nat. a + b = b + a)
   \<and> (\<forall>a :: nat. a + 0 = a) \<and> length (replicate 32 (1::nat)) = warp_size \<and> 5 < warp_size
   \<and> scan (+) 0 Inclusive (replicate 32 (1::nat)) ! 5 = prefix_fold (+) (replicate 32 1) 5
   \<and> scan (+) 0 Exclusive (replicate 32 (1::nat)) ! 5 = prefix_fold (+) (replicate 32 1) 4"
proof -
  have a: "\<forall>a b c :: nat. a + b + c = a + (b + c)" and b: "\<forall>a b :: nat. a + b = b + a"
    and n: "\<forall>a :: nat. a + 0 = a" by simp_all
  have l: "length (replicate 32 (1::nat)) = warp_size" and i: "5 < warp_size"
    by (simp_all add: warp_size_def)
  note t = scan_prefix_fold [OF a b l i, of 0]
  from t have c1: "scan (+) 0 Inclusive (replicate 32 (1::nat)) ! 5
      = prefix_fold (+) (replicate 32 1) 5"
    by (rule conjunct1)
  from t n have "scan (+) 0 Exclusive (replicate 32 (1::nat)) ! 5
      = (if (5::nat) = 0 then 0 else prefix_fold (+) (replicate 32 1) (5 - 1))"
    by blast
  then have c2: "scan (+) 0 Exclusive (replicate 32 (1::nat)) ! 5
      = prefix_fold (+) (replicate 32 1) 4"
    by simp
  show ?thesis using a b n l i c1 c2 by blast
qed

text \<open>
  C6 as stated fails for an operator that is associative but not commutative: with
  list concatenation over the group \<open>singletons\<close>, lane 1 ends with \<open>[1, 0]\<close>, while the
  fold of the lanes 0 and 1 is \<open>[0, 1]\<close>. The ladder accumulates the lower lanes on the right.
\<close>

theorem scan_of_concatenation:
  "(\<forall>a b c :: nat list. (a @ b) @ c = a @ (b @ c)) \<and> length singletons = warp_size
   \<and> scan (@) [] Inclusive singletons ! 1 = [1, 0] \<and> prefix_fold (@) singletons 1 = [0, 1]"
  by (simp add: scan_def) code_simp


section \<open>Properties of the segment parameters\<close>



section \<open>The run bound of a lane group\<close>


section \<open>Packing factor and truncated length\<close>

lemma elements_per_thread_write_cases:
  assumes "0 < UncompressedSize cfg"
  shows "elements_per_thread_write cfg = 1 \<or> elements_per_thread_write cfg = 2
         \<or> elements_per_thread_write cfg = 4"
proof -
  have "UncompressedSize cfg = 1 \<or> UncompressedSize cfg = 2 \<or> UncompressedSize cfg = 3
        \<or> 4 \<le> UncompressedSize cfg"
    using assms by arith
  then show ?thesis
    by (auto simp: elements_per_thread_write_def)
qed

lemma elements_per_thread_write_pos:
  "0 < UncompressedSize cfg \<Longrightarrow> 0 < elements_per_thread_write cfg"
  using elements_per_thread_write_cases [of cfg] by auto

lemma two_power_log2_elements_per_thread_write:
  assumes "0 < UncompressedSize cfg"
  shows "2 ^ log2_constexpr (elements_per_thread_write cfg) = elements_per_thread_write cfg"
  using elements_per_thread_write_cases [OF assms] log2_constexpr_values by auto

lemma truncated_decompressed_length_eq:
  assumes "0 < UncompressedSize cfg"
  shows "truncated_decompressed_length cfg params
         = decompressed_length params - decompressed_length params mod elements_per_thread_write cfg"
  by (simp add: truncated_decompressed_length_def clear_lower_k_bits_def
      two_power_log2_elements_per_thread_write [OF assms])

lemma truncated_decompressed_length_div:
  assumes "0 < UncompressedSize cfg"
  shows "truncated_decompressed_length cfg params
         = (decompressed_length params div elements_per_thread_write cfg)
             * elements_per_thread_write cfg"
  unfolding truncated_decompressed_length_eq [OF assms]
  by (simp add: minus_mod_eq_div_mult)

lemma truncated_decompressed_length_le:
  "truncated_decompressed_length cfg params \<le> decompressed_length params"
  by (simp add: truncated_decompressed_length_def clear_lower_k_bits_def)

lemma decompressed_length_less_truncated:
  assumes "0 < UncompressedSize cfg"
  shows "decompressed_length params
         < truncated_decompressed_length cfg params + elements_per_thread_write cfg"
proof -
  define m where "m = decompressed_length params mod elements_per_thread_write cfg"
  have "m < elements_per_thread_write cfg" "m \<le> decompressed_length params"
    using elements_per_thread_write_pos [OF assms] by (simp_all add: m_def)
  moreover have "truncated_decompressed_length cfg params = decompressed_length params - m"
    by (simp add: truncated_decompressed_length_eq [OF assms] m_def)
  ultimately show ?thesis by arith
qed

lemma length_fill_thread_write_buffer:
  "length (fst (fill_thread_write_buffer S D n wp r e ri)) = r"
  by (induction r arbitrary: e ri) (simp_all add: Let_def case_prod_beta)

lemma map_fst_locate_and_perform_next_write:
  "map fst (fst (locate_and_perform_next_write cfg S D params f position))
   = map (\<lambda>e. write_base cfg params + position + e) [0..<elements_per_thread_write cfg]"
  by (simp add: locate_and_perform_next_write_def write_base_def Let_def case_prod_beta)

lemma main_loop_done:
  assumes "\<not> (0 < block_stride cfg \<and> list_ex (in_main_loop cfg params) lanes)"
  shows "main_loop cfg ind S D params lanes = (lanes, [])"
  by (subst main_loop.simps) (rule if_not_P [OF assms])

lemma main_loop_step:
  assumes "0 < block_stride cfg \<and> list_ex (in_main_loop cfg params) lanes"
  shows "main_loop cfg ind S D params lanes
     = (fst (main_loop cfg ind S D params (fst (main_loop_round cfg ind S D params lanes))),
        snd (main_loop_round cfg ind S D params lanes)
        @ snd (main_loop cfg ind S D params (fst (main_loop_round cfg ind S D params lanes))))"
  by (subst main_loop.simps) (simp only: if_P [OF assms] Let_def)

lemma thread_positions_done:
  assumes "\<not> (0 < stride \<and> position < bound)"
  shows "thread_positions stride epw bound position = []"
  by (subst thread_positions.simps) (rule if_not_P [OF assms])

lemma thread_positions_step:
  assumes "0 < stride \<and> position < bound"
  shows "thread_positions stride epw bound position
     = map (\<lambda>e. position + e) [0..<epw] @ thread_positions stride epw bound (position + stride)"
  by (subst thread_positions.simps) (rule if_P [OF assms])

lemma thread_final_position_done:
  assumes "\<not> (0 < stride \<and> position < bound)"
  shows "thread_final_position stride bound position = position"
  by (subst thread_final_position.simps) (rule if_not_P [OF assms])

lemma thread_final_position_step:
  assumes "0 < stride \<and> position < bound"
  shows "thread_final_position stride bound position
     = thread_final_position stride bound (position + stride)"
  by (subst thread_final_position.simps) (rule if_P [OF assms])

lemma fst_main_loop_round:
  "fst (main_loop_round cfg ind S D params lanes)
   = map (\<lambda>l. if in_main_loop cfg params l
          then after_write cfg params
                 (get_from_last_lane (run_covering_registers cfg ind S D params lanes)) l
          else l) lanes"
  by (simp add: main_loop_round_def Let_def)

lemma map_fst_snd_main_loop_round:
  "map fst (snd (main_loop_round cfg ind S D params lanes))
   = concat (map (\<lambda>l. if in_main_loop cfg params l
        then map (\<lambda>e. write_base cfg params + relative_write_position l + e)
               [0..<elements_per_thread_write cfg] else []) lanes)"
proof -
  have "map fst (if c then fst (locate_and_perform_next_write cfg S D params f p) else [])
      = (if c then map (\<lambda>e. write_base cfg params + p + e) [0..<elements_per_thread_write cfg]
         else [])" for c f p
    by (simp add: map_fst_locate_and_perform_next_write)
  then show ?thesis
    by (simp add: main_loop_round_def Let_def map_concat comp_def)
qed

lemma main_loop_final_positions:
  "map relative_write_position (fst (main_loop cfg ind S D params lanes))
   = map (\<lambda>l. thread_final_position (block_stride cfg) (truncated_decompressed_length cfg params)
                 (relative_write_position l)) lanes"
proof (induction cfg ind S D params lanes rule: main_loop.induct)
  case (1 cfg ind S D params lanes)
  let ?T = "truncated_decompressed_length cfg params"
  let ?tf = "\<lambda>l. thread_final_position (block_stride cfg) ?T (relative_write_position l)"
  show ?case
  proof (cases "0 < block_stride cfg \<and> list_ex (in_main_loop cfg params) lanes")
    case False
    have "?tf l = relative_write_position l" if "l \<in> set lanes" for l
    proof -
      have "\<not> (0 < block_stride cfg \<and> relative_write_position l < ?T)"
        using that False by (auto simp: list_ex_iff in_main_loop_def)
      from thread_final_position_done [OF this] show ?thesis .
    qed
    then show ?thesis by (simp add: main_loop_done [OF False])
  next
    case True
    let ?round = "main_loop_round cfg ind S D params lanes"
    have step: "?tf (if in_main_loop cfg params l then after_write cfg params f l else l) = ?tf l"
      for l f
    proof (cases "in_main_loop cfg params l")
      case False
      then show ?thesis by simp
    next
      case in_loop: True
      then have "0 < block_stride cfg \<and> relative_write_position l < ?T"
        using True by (simp add: in_main_loop_def)
      from thread_final_position_step [OF this] in_loop show ?thesis by simp
    qed
    have "map relative_write_position (fst (main_loop cfg ind S D params lanes))
        = map relative_write_position (fst (main_loop cfg ind S D params (fst ?round)))"
      by (simp add: main_loop_step [OF True])
    also have "\<dots> = map ?tf (fst ?round)"
      using "1.IH" [OF True refl] .
    also have "\<dots> = map ?tf lanes"
      by (simp add: fst_main_loop_round comp_def step)
    finally show ?thesis .
  qed
qed

lemma map_add_assoc:
  fixes a b :: nat
  shows "map (\<lambda>e. a + b + e) xs = map (\<lambda>p. a + p) (map (\<lambda>e. b + e) xs)"
  by (induction xs) simp_all

lemma main_loop_positions:
  "mset (map fst (snd (main_loop cfg ind S D params lanes)))
   = mset (concat (map (\<lambda>l. map (\<lambda>p. write_base cfg params + p)
        (thread_positions (block_stride cfg) (elements_per_thread_write cfg)
           (truncated_decompressed_length cfg params) (relative_write_position l))) lanes))"
proof (induction cfg ind S D params lanes rule: main_loop.induct)
  case (1 cfg ind S D params lanes)
  let ?T = "truncated_decompressed_length cfg params"
  let ?tp = "\<lambda>l. map (\<lambda>p. write_base cfg params + p)
        (thread_positions (block_stride cfg) (elements_per_thread_write cfg) ?T
           (relative_write_position l))"
  show ?case
  proof (cases "0 < block_stride cfg \<and> list_ex (in_main_loop cfg params) lanes")
    case False
    have "?tp l = []" if "l \<in> set lanes" for l
    proof -
      have "\<not> (0 < block_stride cfg \<and> relative_write_position l < ?T)"
        using that False by (auto simp: list_ex_iff in_main_loop_def)
      from thread_positions_done [OF this] show ?thesis by simp
    qed
    then have "concat (map ?tp lanes) = []" by simp
    then show ?thesis by (simp add: main_loop_done [OF False])
  next
    case True
    let ?round = "main_loop_round cfg ind S D params lanes"
    let ?first = "\<lambda>l. if in_main_loop cfg params l
        then map (\<lambda>e. write_base cfg params + relative_write_position l + e)
               [0..<elements_per_thread_write cfg] else []"
    have step: "mset (?tp l) = mset (?first l) + mset (?tp (if in_main_loop cfg params l
         then after_write cfg params f l else l))" for l f
    proof (cases "in_main_loop cfg params l")
      case False
      then show ?thesis by simp
    next
      case in_loop: True
      then have "0 < block_stride cfg \<and> relative_write_position l < ?T"
        using True by (simp add: in_main_loop_def)
      from thread_positions_step [OF this] in_loop show ?thesis
        by (simp only: map_add_assoc map_append mset_append if_True
            relative_write_position_after_write)
    qed
    have "mset (map fst (snd (main_loop cfg ind S D params lanes)))
        = mset (map fst (snd ?round)) + mset (map fst (snd (main_loop cfg ind S D params (fst ?round))))"
      by (simp add: main_loop_step [OF True])
    also have "\<dots> = mset (concat (map ?first lanes)) + mset (concat (map ?tp (fst ?round)))"
      using "1.IH" [OF True refl] by (simp only: map_fst_snd_main_loop_round)
    also have "\<dots> = sum_list (map (\<lambda>l. mset (?first l) + mset (?tp (if in_main_loop cfg params l
         then after_write cfg params
                (get_from_last_lane (run_covering_registers cfg ind S D params lanes)) l
         else l))) lanes)"
      unfolding fst_main_loop_round mset_concat map_map comp_def
      by (simp only: sum_list_addf)
    also have "\<dots> = sum_list (map (\<lambda>l. mset (?tp l)) lanes)"
      by (simp only: step [symmetric])
    also have "\<dots> = mset (concat (map ?tp lanes))"
      by (simp only: mset_concat map_map comp_def)
    finally show ?thesis .
  qed
qed

section \<open>The positions written by one thread\<close>

lemma thread_positions_lower:
  "p \<in> set (thread_positions stride epw bound position) \<Longrightarrow> position \<le> p"
proof (induction stride epw bound position rule: thread_positions.induct)
  case (1 stride epw bound position)
  show ?case
  proof (cases "0 < stride \<and> position < bound")
    case False
    then show ?thesis using "1.prems" by (simp add: thread_positions_done)
  next
    case True
    from "1.prems" have "p \<in> set (map (\<lambda>e. position + e) [0..<epw])
        \<or> p \<in> set (thread_positions stride epw bound (position + stride))"
      by (simp add: thread_positions_step [OF True])
    then show ?thesis
    proof
      assume "p \<in> set (map (\<lambda>e. position + e) [0..<epw])"
      then show ?thesis by auto
    next
      assume "p \<in> set (thread_positions stride epw bound (position + stride))"
      from "1.IH" [OF True this] show ?thesis by simp
    qed
  qed
qed

lemma distinct_thread_positions:
  "epw \<le> stride \<Longrightarrow> distinct (thread_positions stride epw bound position)"
proof (induction stride epw bound position rule: thread_positions.induct)
  case (1 stride epw bound position)
  show ?case
  proof (cases "0 < stride \<and> position < bound")
    case False
    then show ?thesis by (simp add: thread_positions_done)
  next
    case True
    have "distinct (map (\<lambda>e. position + e) [0..<epw])"
      by (simp add: distinct_map inj_on_def)
    moreover have "distinct (thread_positions stride epw bound (position + stride))"
      using "1.IH" [OF True "1.prems"] .
    moreover have "set (map (\<lambda>e. position + e) [0..<epw])
        \<inter> set (thread_positions stride epw bound (position + stride)) = {}"
    proof -
      have "position + stride \<le> p"
        if "p \<in> set (thread_positions stride epw bound (position + stride))" for p
        using thread_positions_lower [OF that] .
      then show ?thesis using "1.prems" by fastforce
    qed
    ultimately show ?thesis by (simp add: thread_positions_step [OF True])
  qed
qed

lemma set_thread_positions:
  "0 < epw \<Longrightarrow> 0 < B \<Longrightarrow> t < B
     \<Longrightarrow> stride = B * epw \<Longrightarrow> bound = Q * epw \<Longrightarrow> position = (t + k * B) * epw
     \<Longrightarrow> set (thread_positions stride epw bound position)
         = {p. p < Q * epw \<and> (p div epw) mod B = t \<and> t + k * B \<le> p div epw}"
proof (induction stride epw bound position arbitrary: k rule: thread_positions.induct)
  case (1 stride epw bound position)
  note epw = "1.prems"(1) and B = "1.prems"(2) and t = "1.prems"(3)
  note stride = "1.prems"(4) and bound = "1.prems"(5) and position = "1.prems"(6)
  show ?case
  proof (cases "0 < stride \<and> position < bound")
    case False
    then have ge: "Q * epw \<le> (t + k * B) * epw"
      using stride bound position epw B by simp
    have "\<not> (p < Q * epw \<and> t + k * B \<le> p div epw)" for p
    proof
      assume a: "p < Q * epw \<and> t + k * B \<le> p div epw"
      then have "(t + k * B) * epw \<le> (p div epw) * epw" by simp
      also have "\<dots> \<le> p" by simp
      finally show False using a ge by simp
    qed
    then show ?thesis using False by (auto simp: thread_positions_done)
  next
    case True
    have lt: "t + k * B < Q"
      using True bound position epw by simp
    have IH: "set (thread_positions stride epw bound (position + stride))
        = {p. p < Q * epw \<and> (p div epw) mod B = t \<and> t + (k + 1) * B \<le> p div epw}"
      using "1.IH" [OF True epw B t stride bound, of "k + 1"] stride position
      by (simp add: algebra_simps)
    have first: "set (map (\<lambda>e. position + e) [0..<epw])
        = {p. p < Q * epw \<and> (p div epw) mod B = t \<and> p div epw = t + k * B}"
    proof (intro equalityI subsetI)
      fix p assume "p \<in> set (map (\<lambda>e. position + e) [0..<epw])"
      then have "p \<in> (\<lambda>e. position + e) ` {0..<epw}" by (simp only: set_map set_upt)
      then obtain e where "e \<in> {0..<epw}" "p = position + e" by (rule imageE)
      then have e: "e < epw" "p = (t + k * B) * epw + e"
        using position by simp_all
      then have d: "p div epw = t + k * B" using epw by simp
      have "(t + k * B + 1) * epw \<le> Q * epw"
        using lt by (intro mult_le_mono1) simp
      then have "p < Q * epw" using e by (simp add: algebra_simps)
      then show "p \<in> {p. p < Q * epw \<and> (p div epw) mod B = t \<and> p div epw = t + k * B}"
        using d t by simp
    next
      fix p assume "p \<in> {p. p < Q * epw \<and> (p div epw) mod B = t \<and> p div epw = t + k * B}"
      then have d: "p div epw = t + k * B" by simp
      have "p = (p div epw) * epw + p mod epw" by simp
      then have "p = position + p mod epw" using d position by simp
      moreover have "p mod epw < epw" using epw by simp
      ultimately show "p \<in> set (map (\<lambda>e. position + e) [0..<epw])"
        by (metis (no_types, lifting) atLeast0LessThan image_eqI lessThan_iff set_map set_upt)
    qed
    have split: "(q mod B = t \<and> t + k * B \<le> q)
        \<longleftrightarrow> (q mod B = t \<and> q = t + k * B) \<or> (q mod B = t \<and> t + (k + 1) * B \<le> q)" for q
    proof (cases "q mod B = t")
      case False
      then show ?thesis by simp
    next
      case True
      define d where "d = q div B"
      have q: "q = t + d * B"
        using mod_div_mult_eq [of q B] True by (simp add: d_def)
      have "t + k * B \<le> q \<longleftrightarrow> k \<le> d" using B by (simp add: q)
      moreover have "q = t + k * B \<longleftrightarrow> k = d" using B by (auto simp: q)
      moreover have "t + (k + 1) * B \<le> q \<longleftrightarrow> k + 1 \<le> d"
        unfolding q using B by (simp only: add_le_cancel_left mult_le_cancel2) simp
      ultimately show ?thesis using True by auto
    qed
    have "set (thread_positions stride epw bound position)
        = set (map (\<lambda>e. position + e) [0..<epw])
          \<union> set (thread_positions stride epw bound (position + stride))"
      by (simp add: thread_positions_step [OF True])
    also have "\<dots> = {p. p < Q * epw \<and> (p div epw) mod B = t \<and> t + k * B \<le> p div epw}"
      unfolding IH first using split by blast
    finally show ?thesis .
  qed
qed

lemma distinct_concat_map_key:
  assumes "distinct ts" "\<And>t. t \<in> set ts \<Longrightarrow> distinct (F t)"
    "\<And>t p. t \<in> set ts \<Longrightarrow> p \<in> set (F t) \<Longrightarrow> key p = t"
  shows "distinct (concat (map F ts))"
  using assms
proof (induction ts)
  case Nil
  then show ?case by simp
next
  case (Cons a ts)
  have "set (F a) \<inter> (\<Union>t \<in> set ts. set (F t)) = {}"
  proof -
    have False if "p \<in> set (F a)" "t \<in> set ts" "p \<in> set (F t)" for p t
    proof -
      have "key p = a" "key p = t" using that Cons.prems(3) by simp_all
      then show False using Cons.prems(1) that(2) by simp
    qed
    then show ?thesis by blast
  qed
  moreover have "distinct (concat (map F ts))"
    using Cons by simp
  ultimately show ?case using Cons.prems(2) by simp
qed

lemma thread_final_position_form:
  "0 < stride \<Longrightarrow> \<exists>K. thread_final_position stride bound position = position + K * stride
      \<and> bound \<le> position + K * stride \<and> (0 < K \<longrightarrow> position + (K - 1) * stride < bound)"
proof (induction stride bound position rule: thread_final_position.induct)
  case (1 stride bound position)
  show ?case
  proof (cases "0 < stride \<and> position < bound")
    case False
    then have "thread_final_position stride bound position = position + 0 * stride
        \<and> bound \<le> position + 0 * stride"
      using "1.prems" by (simp add: thread_final_position_done)
    then show ?thesis by blast
  next
    case True
    from "1.IH" [OF True "1.prems"] obtain K where K:
      "thread_final_position stride bound (position + stride) = position + stride + K * stride"
      "bound \<le> position + stride + K * stride"
      "0 < K \<longrightarrow> position + stride + (K - 1) * stride < bound"
      by blast
    have "position + (Suc K - 1) * stride < bound"
    proof (cases K)
      case 0
      then show ?thesis using True by simp
    next
      case (Suc k)
      then show ?thesis using K(3) by (simp add: algebra_simps)
    qed
    then have "thread_final_position stride bound position = position + Suc K * stride
        \<and> bound \<le> position + Suc K * stride
        \<and> (0 < Suc K \<longrightarrow> position + (Suc K - 1) * stride < bound)"
      using K(1,2) by (simp add: thread_final_position_step [OF True] algebra_simps)
    then show ?thesis by blast
  qed
qed

lemma thread_wrote_last_iff:
  assumes epw: "0 < epw" and B: "0 < B" and t: "t < B" and Q: "0 < Q"
  shows "thread_final_position (B * epw) (Q * epw) (t * epw) = (Q * epw - epw) + epw * B
         \<longleftrightarrow> t = (Q - 1) mod B"
proof -
  have "0 < B * epw" using epw B by simp
  from thread_final_position_form [OF this, of "Q * epw" "t * epw"] obtain K where
    K: "thread_final_position (B * epw) (Q * epw) (t * epw) = t * epw + K * (B * epw)"
       "Q * epw \<le> t * epw + K * (B * epw)"
       "0 < K \<longrightarrow> t * epw + (K - 1) * (B * epw) < Q * epw"
    by blast
  have f: "thread_final_position (B * epw) (Q * epw) (t * epw) = (t + K * B) * epw"
    using K(1) by (simp add: algebra_simps)
  have "Q * epw \<le> (t + K * B) * epw" using K(2) by (simp add: algebra_simps)
  then have ge: "Q \<le> t + K * B" using epw by simp
  have lt: "t + (K - 1) * B < Q" if "0 < K"
  proof -
    have "(t + (K - 1) * B) * epw < Q * epw" using K(3) that by (simp add: algebra_simps)
    then show ?thesis using epw by simp
  qed
  have target: "(Q * epw - epw) + epw * B = (Q - 1 + B) * epw"
    using Q by (simp add: algebra_simps)
  have "(t + K * B) * epw = (Q - 1 + B) * epw \<longleftrightarrow> t + K * B = Q - 1 + B"
    using epw by simp
  also have "\<dots> \<longleftrightarrow> t = (Q - 1) mod B"
  proof
    assume a: "t + K * B = Q - 1 + B"
    have "0 < K"
    proof (rule ccontr)
      assume "\<not> 0 < K"
      then show False using a t by simp
    qed
    then obtain k where k: "K = Suc k" by (cases K) simp_all
    have "Q - 1 = t + k * B" using a k by simp
    then show "t = (Q - 1) mod B" using t by simp
  next
    assume a: "t = (Q - 1) mod B"
    define d where "d = (Q - 1) div B"
    have q: "Q - 1 = t + d * B"
      using mod_div_mult_eq [of "Q - 1" B] a by (simp add: d_def)
    have "t + d * B < t + K * B" using ge q Q by linarith
    then have "d * B < K * B" by simp
    then have dK: "d < K" by (simp only: mult_less_cancel2)
    then have "t + (K - 1) * B < Q" using lt by simp
    then have "t + (K - 1) * B \<le> t + d * B" using q Q by linarith
    then have "(K - 1) * B \<le> d * B" by simp
    then have "K - 1 \<le> d" using B by (simp only: mult_le_cancel2)
    then have "K = Suc d" using dK by simp
    then show "t + K * B = Q - 1 + B" using q by simp
  qed
  finally show ?thesis using f target by simp
qed

lemma concat_map_blocks:
  "concat (map (\<lambda>w. concat (map (\<lambda>j. G (w * m + j)) [0..<m])) [0..<n]) = concat (map G [0..<n * m])"
proof (induction n)
  case 0
  show ?case by simp
next
  case (Suc n)
  have "map G [n * m..<n * m + m] = map (\<lambda>j. G (n * m + j)) [0..<m]"
    by (rule nth_equalityI) simp_all
  moreover have "[0..<Suc n * m] = [0..<n * m] @ [n * m..<n * m + m]"
    using upt_add_eq_append [of 0 "n * m" m] by (simp add: add.commute)
  ultimately have "concat (map G [0..<Suc n * m])
      = concat (map G [0..<n * m]) @ concat (map (\<lambda>j. G (n * m + j)) [0..<m])"
    by (simp only: map_append concat_append)
  then show ?case using Suc by simp
qed

lemma concat_map_single:
  "w < n \<Longrightarrow> concat (map (\<lambda>i. if i = w then xs else []) [0..<n]) = xs"
proof (induction n)
  case 0
  then show ?case by simp
next
  case (Suc n)
  show ?case
  proof (cases "w = n")
    case True
    have "concat (map (\<lambda>i. if i = w then xs else []) [0..<n]) = []"
      using True by (induction n) auto
    then show ?thesis using True by simp
  next
    case False
    then show ?thesis using Suc by simp
  qed
qed

lemma concat_map_prefix:
  "concat (map (\<lambda>i. if n \<le> i then [] else [f i]) [0..<m]) = map f [0..<min n m]"
proof (induction m)
  case 0
  show ?case by simp
next
  case (Suc m)
  show ?case
  proof (cases "n \<le> m")
    case True
    then show ?thesis using Suc by (simp add: min_def)
  next
    case False
    then show ?thesis using Suc by (auto simp: min_def le_Suc_eq)
  qed
qed

section \<open>The positions written by a warp, a block and the grid\<close>

lemma length_main_loop:
  "length (fst (main_loop cfg ind S D params lanes)) = length lanes"
proof (induction cfg ind S D params lanes rule: main_loop.induct)
  case (1 cfg ind S D params lanes)
  show ?case
  proof (cases "0 < block_stride cfg \<and> list_ex (in_main_loop cfg params) lanes")
    case False
    then show ?thesis by (simp add: main_loop_done)
  next
    case True
    show ?thesis
      using "1.IH" [OF True refl] by (simp add: main_loop_step [OF True] fst_main_loop_round)
  qed
qed

lemma length_initial_lanes [simp]: "length (initial_lanes cfg w) = warp_size"
  by (simp add: initial_lanes_def)

lemma nth_initial_lanes:
  "j < warp_size \<Longrightarrow> initial_lanes cfg w ! j
     = \<lparr>relative_write_position = index_in_block w j * elements_per_thread_write cfg,
        first_possible_run_for_next_write = 0\<rparr>"
  by (simp add: initial_lanes_def)

lemma all_satisfy_all_active:
  "all_satisfy (map (\<lambda>_. True) lanes) (map P lanes) = list_all P lanes"
  by (induction lanes) (simp_all add: all_satisfy_def)

lemma warp_main_positions:
  "mset (map fst (snd (main_loop cfg ind S D params (initial_lanes cfg w))))
   = mset (concat (map (\<lambda>j. map (\<lambda>p. write_base cfg params + p)
        (thread_positions (block_stride cfg) (elements_per_thread_write cfg)
           (truncated_decompressed_length cfg params)
           ((w * warp_size + j) * elements_per_thread_write cfg))) [0..<warp_size]))"
  unfolding main_loop_positions
  by (simp add: initial_lanes_def comp_def index_in_block_def)

lemma map_fst_slack_write:
  "map fst (slack_write cfg S D params f lane)
   = [write_base cfg params + truncated_decompressed_length cfg params + lane]"
  by (simp add: slack_write_def write_base_def Let_def)

lemma warp_slack_positions:
  assumes size: "0 < UncompressedSize cfg"
    and B: "block_length cfg = warp_size * nw" and nw: "0 < nw" and w: "w < nw"
  shows "map fst (handle_slack cfg S D params w
            (fst (main_loop cfg ind S D params (initial_lanes cfg w))))
     = (if w = slack_warp cfg params
        then map (\<lambda>i. write_base cfg params + truncated_decompressed_length cfg params + i)
               [0..<decompressed_length params - truncated_decompressed_length cfg params]
        else [])"
proof -
  let ?epw = "elements_per_thread_write cfg"
  let ?T = "truncated_decompressed_length cfg params"
  let ?len = "decompressed_length params"
  let ?lanes = "fst (main_loop cfg ind S D params (initial_lanes cfg w))"
  let ?pos = "\<lambda>i. write_base cfg params + ?T + i"
  have epw: "0 < ?epw" using elements_per_thread_write_pos [OF size] .
  have epw4: "?epw \<le> 4" using elements_per_thread_write_cases [OF size] by auto
  have slack_lt: "?len - ?T < ?epw"
    using decompressed_length_less_truncated [OF size, of params] epw by arith
  have Bpos: "0 < block_length cfg" using B nw by (simp add: warp_size_def)
  show ?thesis
  proof (cases "1 < ?epw \<and> ?len - ?T \<noteq> 0")
    case False
    then have "?len - ?T = 0 \<or> \<not> 1 < ?epw" by blast
    moreover have "?len - ?T = 0" if "\<not> 1 < ?epw"
      using that slack_lt by simp
    ultimately have z: "?len - ?T = 0" by blast
    then show ?thesis by (simp add: handle_slack_def Let_def)
  next
    case slack: True
    show ?thesis
    proof (cases "?T = 0")
      case True
      have hs: "map fst (handle_slack cfg S D params w ?lanes)
          = concat (map (\<lambda>lane. if ?len - ?T \<le> index_in_block w lane then []
                                  else [?pos lane]) [0..<warp_size])"
        using slack True
        by (simp add: handle_slack_def Let_def map_concat comp_def if_distrib [of "map fst"]
            map_fst_slack_write cong: if_cong)
      show ?thesis
      proof (cases "w = 0")
        case w0: True
        have "min (?len - ?T) warp_size = ?len - ?T"
          using slack_lt epw4 by (simp add: warp_size_def)
        then show ?thesis
          using w0 True hs concat_map_prefix [of "?len - ?T" ?pos warp_size]
          by (simp add: index_in_block_def slack_warp_def)
      next
        case False
        then have "?len - ?T \<le> index_in_block w lane" for lane
          using slack_lt epw4 by (simp add: index_in_block_def warp_size_def)
        then show ?thesis using False True hs by (simp add: slack_warp_def)
      qed
    next
      case False
      define Q where "Q = ?T div ?epw"
      have TQ: "?T = Q * ?epw"
        using truncated_decompressed_length_div [OF size, of params] by (simp add: Q_def)
      have Qpos: "0 < Q" using False TQ by simp
      define tstar where "tstar = (Q - 1) mod block_length cfg"
      have tstar: "tstar < block_length cfg" using Bpos by (simp add: tstar_def)
      have sw: "slack_warp cfg params = tstar div warp_size"
        using False by (simp add: slack_warp_def tstar_def Q_def)
      have len: "length ?lanes = warp_size" by (simp add: length_main_loop)
      have wrote: "this_thread_wrote_last_element_so_far cfg params (?lanes ! j)
          \<longleftrightarrow> w * warp_size + j = tstar" if j: "j < warp_size" for j
      proof -
        have t: "w * warp_size + j < block_length cfg"
        proof -
          have "w * warp_size + j < (w + 1) * warp_size" using j by simp
          also have "\<dots> \<le> nw * warp_size" using w by (intro mult_le_mono1) simp
          finally show ?thesis using B by (simp add: mult.commute)
        qed
        have "relative_write_position (?lanes ! j) = map relative_write_position ?lanes ! j"
          using j len by simp
        also have "\<dots> = thread_final_position (block_stride cfg) ?T
               ((w * warp_size + j) * ?epw)"
          using j by (simp add: main_loop_final_positions nth_initial_lanes index_in_block_def)
        finally have "relative_write_position (?lanes ! j)
            = thread_final_position (block_length cfg * ?epw) (Q * ?epw) ((w * warp_size + j) * ?epw)"
          by (simp add: block_stride_def TQ)
        then show ?thesis
          using thread_wrote_last_iff [OF epw Bpos t Qpos]
          by (simp add: this_thread_wrote_last_element_so_far_def TQ tstar_def)
      qed
      have vote: "all_satisfy (map (\<lambda>_. True) ?lanes)
            (map (\<lambda>l. \<not> this_thread_wrote_last_element_so_far cfg params l) ?lanes)
          \<longleftrightarrow> w \<noteq> tstar div warp_size"
      proof -
        have "list_all (\<lambda>l. \<not> this_thread_wrote_last_element_so_far cfg params l) ?lanes
            \<longleftrightarrow> (\<forall>j<warp_size. w * warp_size + j \<noteq> tstar)"
          using wrote len by (simp add: list_all_length)
        also have "\<dots> \<longleftrightarrow> w \<noteq> tstar div warp_size"
        proof
          assume a: "\<forall>j<warp_size. w * warp_size + j \<noteq> tstar"
          show "w \<noteq> tstar div warp_size"
          proof
            assume "w = tstar div warp_size"
            then have "w * warp_size + tstar mod warp_size = tstar" by simp
            moreover have "tstar mod warp_size < warp_size" by (simp add: warp_size_def)
            ultimately show False using a by blast
          qed
        next
          assume a: "w \<noteq> tstar div warp_size"
          show "\<forall>j<warp_size. w * warp_size + j \<noteq> tstar"
          proof (intro allI impI notI)
            fix j assume "j < warp_size" "w * warp_size + j = tstar"
            then have "tstar div warp_size = w" by auto
            then show False using a by simp
          qed
        qed
        finally show ?thesis by (simp only: all_satisfy_all_active)
      qed
      show ?thesis
      proof (cases "w = tstar div warp_size")
        case True
        have "min (?len - ?T) warp_size = ?len - ?T"
          using slack_lt epw4 by (simp add: warp_size_def)
        moreover have "map fst (handle_slack cfg S D params w ?lanes)
            = concat (map (\<lambda>lane. if ?len - ?T \<le> lane then [] else [?pos lane]) [0..<warp_size])"
          using slack False vote True
          by (simp add: handle_slack_def Let_def map_concat comp_def if_distrib [of "map fst"]
              map_fst_slack_write cong: if_cong)
        ultimately show ?thesis
          using True sw concat_map_prefix [of "?len - ?T" ?pos warp_size] by simp
      next
        case notw: False
        then show ?thesis
          using slack False vote sw by (simp add: handle_slack_def Let_def)
      qed
    qed
  qed
qed

lemma mset_upt_of_distinct:
  "distinct xs \<Longrightarrow> set xs = {a..<b} \<Longrightarrow> mset xs = mset [a..<b]"
  using set_eq_iff_mset_eq_distinct [of xs "[a..<b]"] by simp

lemma block_main_positions:
  assumes size: "0 < UncompressedSize cfg" and Bpos: "0 < block_length cfg"
  shows "mset (concat (map (\<lambda>t. map (\<lambda>p. write_base cfg params + p)
            (thread_positions (block_stride cfg) (elements_per_thread_write cfg)
               (truncated_decompressed_length cfg params) (t * elements_per_thread_write cfg)))
          [0..<block_length cfg]))
     = mset [write_base cfg params
             ..<write_base cfg params + truncated_decompressed_length cfg params]"
proof -
  let ?epw = "elements_per_thread_write cfg"
  let ?B = "block_length cfg"
  let ?T = "truncated_decompressed_length cfg params"
  let ?wb = "write_base cfg params"
  let ?G = "\<lambda>t. map (\<lambda>p. ?wb + p) (thread_positions (block_stride cfg) ?epw ?T (t * ?epw))"
  have epw: "0 < ?epw" using elements_per_thread_write_pos [OF size] .
  define Q where "Q = ?T div ?epw"
  have TQ: "?T = Q * ?epw"
    using truncated_decompressed_length_div [OF size, of params] by (simp add: Q_def)
  have set_tp: "set (thread_positions (block_stride cfg) ?epw ?T (t * ?epw))
      = {p. p < ?T \<and> (p div ?epw) mod ?B = t}" if t: "t < ?B" for t
  proof -
    have "set (thread_positions (block_stride cfg) ?epw ?T (t * ?epw))
        = {p. p < Q * ?epw \<and> (p div ?epw) mod ?B = t \<and> t + 0 * ?B \<le> p div ?epw}"
      by (rule set_thread_positions [OF epw Bpos t]) (simp_all add: block_stride_def TQ)
    moreover have "t \<le> q" if "q mod ?B = t" for q
      using that mod_less_eq_dividend [of q ?B] by simp
    then have "(p < Q * ?epw \<and> (p div ?epw) mod ?B = t \<and> t + 0 * ?B \<le> p div ?epw)
        \<longleftrightarrow> (p < ?T \<and> (p div ?epw) mod ?B = t)" for p
      by (cases "(p div ?epw) mod ?B = t") (simp_all add: TQ [symmetric])
    ultimately show ?thesis by (simp only:)
  qed
  have "distinct (concat (map ?G [0..<?B]))"
  proof (rule distinct_concat_map_key [where key = "\<lambda>p. ((p - ?wb) div ?epw) mod ?B"])
    show "distinct [0..<?B]" by simp
  next
    fix t assume "t \<in> set [0..<?B]"
    have "?epw \<le> block_stride cfg" using Bpos by (simp add: block_stride_def)
    then show "distinct (?G t)"
      by (simp add: distinct_map distinct_thread_positions inj_on_def)
  next
    fix t p assume a: "t \<in> set [0..<?B]" "p \<in> set (?G t)"
    have t: "t < ?B" using a(1) by simp
    from a(2) obtain p' where p':
      "p' \<in> set (thread_positions (block_stride cfg) ?epw ?T (t * ?epw))" "p = ?wb + p'"
      by (auto simp: image_iff)
    from p'(1) have "p' \<in> {p. p < ?T \<and> (p div ?epw) mod ?B = t}"
      by (simp only: set_tp [OF t])
    then show "((p - ?wb) div ?epw) mod ?B = t" using p'(2) by simp
  qed
  moreover have "set (concat (map ?G [0..<?B])) = {?wb..<?wb + ?T}"
  proof (intro equalityI subsetI)
    fix p assume "p \<in> set (concat (map ?G [0..<?B]))"
    then obtain t where t: "t < ?B" "p \<in> set (?G t)" by auto
    from t(2) obtain p' where p':
      "p' \<in> set (thread_positions (block_stride cfg) ?epw ?T (t * ?epw))" "p = ?wb + p'"
      by (auto simp: image_iff)
    from p'(1) have "p' \<in> {p. p < ?T \<and> (p div ?epw) mod ?B = t}"
      by (simp only: set_tp [OF t(1)])
    then show "p \<in> {?wb..<?wb + ?T}" using p'(2) by simp
  next
    fix p assume p: "p \<in> {?wb..<?wb + ?T}"
    define t where "t = ((p - ?wb) div ?epw) mod ?B"
    have t: "t < ?B" using Bpos by (simp add: t_def)
    have "p - ?wb \<in> {p. p < ?T \<and> (p div ?epw) mod ?B = t}"
      using p by (simp add: t_def) arith
    then have "p - ?wb \<in> set (thread_positions (block_stride cfg) ?epw ?T (t * ?epw))"
      by (simp only: set_tp [OF t])
    then have "?wb + (p - ?wb) \<in> set (?G t)" by simp
    then have "p \<in> set (?G t)" using p by simp
    then show "p \<in> set (concat (map ?G [0..<?B]))" using t by auto
  qed
  ultimately show ?thesis by (rule mset_upt_of_distinct)
qed

lemma slack_warp_less:
  assumes "block_length cfg = warp_size * nw" "0 < nw"
  shows "slack_warp cfg params < nw"
proof -
  have "x mod block_length cfg div warp_size < nw" for x
  proof -
    have "x mod block_length cfg < warp_size * nw"
      using assms by (simp add: warp_size_def)
    then show ?thesis by (simp add: less_mult_imp_div_less mult.commute)
  qed
  then show ?thesis using assms(2) by (simp add: slack_warp_def)
qed

lemma segment_positions:
  assumes size: "0 < UncompressedSize cfg"
    and B: "block_length cfg = warp_size * nw" and nw: "0 < nw"
  shows "mset (map fst (concat (map (decompress_segment cfg ind S D params) [0..<nw])))
     = mset [write_base cfg params..<write_base cfg params + decompressed_length params]"
proof -
  let ?epw = "elements_per_thread_write cfg"
  let ?T = "truncated_decompressed_length cfg params"
  let ?len = "decompressed_length params"
  let ?wb = "write_base cfg params"
  let ?G = "\<lambda>t. map (\<lambda>p. ?wb + p) (thread_positions (block_stride cfg) ?epw ?T (t * ?epw))"
  let ?SL = "map (\<lambda>i. ?wb + ?T + i) [0..<?len - ?T]"
  let ?main = "\<lambda>w. map fst (snd (main_loop cfg ind S D params (initial_lanes cfg w)))"
  let ?slack = "\<lambda>w. map fst (handle_slack cfg S D params w
                    (fst (main_loop cfg ind S D params (initial_lanes cfg w))))"
  have Bpos: "0 < block_length cfg" using B nw by (simp add: warp_size_def)
  have "mset (map fst (concat (map (decompress_segment cfg ind S D params) [0..<nw])))
      = (\<Sum>w\<leftarrow>[0..<nw]. mset (?main w) + mset (?slack w))"
    by (simp add: decompress_segment_def decompress_a_segment_with_few_runs_def Let_def
        map_concat mset_concat comp_def)
  also have "\<dots> = (\<Sum>w\<leftarrow>[0..<nw]. mset (?main w)) + (\<Sum>w\<leftarrow>[0..<nw]. mset (?slack w))"
    by (simp only: sum_list_addf)
  also have "(\<Sum>w\<leftarrow>[0..<nw]. mset (?main w))
      = (\<Sum>w\<leftarrow>[0..<nw]. mset (concat (map (\<lambda>j. ?G (w * warp_size + j)) [0..<warp_size])))"
    by (simp only: warp_main_positions)
  also have "\<dots> = mset (concat (map (\<lambda>w. concat (map (\<lambda>j. ?G (w * warp_size + j)) [0..<warp_size]))
                      [0..<nw]))"
    by (simp only: mset_concat map_map comp_def)
  also have "\<dots> = mset (concat (map ?G [0..<block_length cfg]))"
    using concat_map_blocks [of ?G warp_size nw] by (simp only: B mult.commute [of warp_size nw])
  also have "\<dots> = mset [?wb..<?wb + ?T]"
    by (rule block_main_positions [OF size Bpos])
  also have "(\<Sum>w\<leftarrow>[0..<nw]. mset (?slack w))
      = (\<Sum>w\<leftarrow>[0..<nw]. mset (if w = slack_warp cfg params then ?SL else []))"
    by (rule arg_cong [where f = sum_list], rule map_cong [OF refl])
       (simp only: warp_slack_positions [OF size B nw] set_upt atLeastLessThan_iff)
  also have "\<dots> = mset (concat (map (\<lambda>w. if w = slack_warp cfg params then ?SL else []) [0..<nw]))"
    by (simp only: mset_concat map_map comp_def)
  also have "\<dots> = mset ?SL"
    by (simp only: concat_map_single [OF slack_warp_less [OF B nw]])
  also have "?SL = [?wb + ?T..<?wb + ?len]"
  proof -
    have "?SL = map (\<lambda>i. i + (?wb + ?T)) [0..<?len - ?T]" by (simp add: add.commute)
    also have "\<dots> = [?wb + ?T..<?len - ?T + (?wb + ?T)]" by (rule map_add_upt)
    also have "?len - ?T + (?wb + ?T) = ?wb + ?len"
      using truncated_decompressed_length_le [of cfg params] by simp
    finally show ?thesis .
  qed
  also have "mset [?wb..<?wb + ?T] + mset [?wb + ?T..<?wb + ?len] = mset [?wb..<?wb + ?len]"
  proof -
    have "[?wb..<?wb + ?len] = [?wb..<?wb + ?T] @ [?wb + ?T..<?wb + ?len]"
      using upt_add_eq_append [of ?wb "?wb + ?T" "?len - ?T"]
        truncated_decompressed_length_le [of cfg params] by simp
    then show ?thesis by simp
  qed
  finally show ?thesis .
qed

lemma write_base_offset:
  "(if PositionsAreRelative cfg then uncompressed_start_position params else 0)
     + write_base cfg params = uncompressed_start_position params"
  by (simp add: write_base_def)

lemma map_fst_decompress:
  "map fst (decompress cfg ind rd rsp pa period na ner n g w)
   = (let params = resolve_segment_decompression_params rsp pa period na ner n g
      in map (\<lambda>p. (if PositionsAreRelative cfg then uncompressed_start_position params else 0) + p)
           (map fst (decompress_segment cfg ind (drop (first_run_index params) rsp)
                       (drop (first_run_index params) rd) params w)))"
  by (simp add: decompress_def Let_def case_prod_beta comp_def)

lemma block_positions:
  assumes size: "0 < UncompressedSize cfg"
    and B: "block_length cfg = warp_size * nw" and nw: "0 < nw"
  shows "mset (map fst (decompress_by_block cfg ind rd rsp pa period na ner n g))
     = mset [uncompressed_start_position (resolve_segment_decompression_params rsp pa period na ner n g)
             ..<uncompressed_start_position (resolve_segment_decompression_params rsp pa period na ner n g)
                + decompressed_length (resolve_segment_decompression_params rsp pa period na ner n g)]"
proof -
  define params where "params = resolve_segment_decompression_params rsp pa period na ner n g"
  define off where "off = (if PositionsAreRelative cfg then uncompressed_start_position params else 0)"
  let ?S = "drop (first_run_index params) rsp" and ?D = "drop (first_run_index params) rd"
  let ?wb = "write_base cfg params" and ?len = "decompressed_length params"
  have nw': "block_length cfg div warp_size = nw" using B by (simp add: warp_size_def)
  have "map fst (decompress_by_block cfg ind rd rsp pa period na ner n g)
      = map (\<lambda>p. off + p) (map fst (concat (map (decompress_segment cfg ind ?S ?D params) [0..<nw])))"
    by (simp add: decompress_by_block_def nw' map_concat comp_def map_fst_decompress Let_def
        params_def off_def)
  then have "mset (map fst (decompress_by_block cfg ind rd rsp pa period na ner n g))
      = image_mset (\<lambda>p. off + p)
          (mset (map fst (concat (map (decompress_segment cfg ind ?S ?D params) [0..<nw]))))"
    by (simp only: mset_map)
  also have "\<dots> = image_mset (\<lambda>p. off + p) (mset [?wb..<?wb + ?len])"
    by (simp only: segment_positions [OF size B nw])
  also have "\<dots> = mset (map (\<lambda>p. off + p) [?wb..<?wb + ?len])"
    by (simp only: mset_map)
  also have "map (\<lambda>p. off + p) [?wb..<?wb + ?len] = map (\<lambda>p. p + off) [?wb..<?wb + ?len]"
    by (simp add: add.commute)
  also have "map (\<lambda>p. p + off) [?wb..<?wb + ?len] = [?wb + off..<?wb + ?len + off]"
    by (rule nth_equalityI) simp_all
  also have "?wb + off = uncompressed_start_position params"
    using write_base_offset [of cfg params] by (simp add: off_def add.commute)
  also have "?wb + ?len + off = uncompressed_start_position params + ?len"
    using write_base_offset [of cfg params] by (simp add: off_def add.commute)
  finally show ?thesis by (simp add: params_def)
qed

lemma concat_full_segments:
  "concat (map (\<lambda>g. [g * p..<g * p + p]) [0..<m]) = [0..<m * p]"
proof (induction m)
  case 0
  show ?case by simp
next
  case (Suc m)
  have "[0..<Suc m * p] = [0..<m * p] @ [m * p..<m * p + p]"
    using upt_add_eq_append [of 0 "m * p" p] by (simp add: add.commute)
  then show ?case using Suc by simp
qed

lemma num_anchored_segments_bounds:
  assumes "0 < p" "num_anchored_segments n p = Suc m"
  shows "m * p < n \<and> n \<le> m * p + p"
proof -
  define x where "x = n + p - 1"
  have "x div p = Suc m" using assms(2) by (simp add: num_anchored_segments_def div_rounding_up_def x_def)
  then have "x = Suc m * p + x mod p" by (metis div_mult_mod_eq)
  moreover have "x mod p < p" using assms(1) by simp
  ultimately have "n + p - 1 = m * p + p + (n + p - 1) mod p" "(n + p - 1) mod p < p"
    by (simp_all add: x_def)
  then show ?thesis using assms(1) by linarith
qed

lemma num_anchored_segments_zero:
  assumes "0 < p" "num_anchored_segments n p = 0"
  shows "n = 0"
proof -
  have "(n + p - 1) div p = 0"
    using assms(2) by (simp add: num_anchored_segments_def div_rounding_up_def)
  then have "n + p - 1 < p" using assms(1) by (simp add: div_eq_0_iff)
  then show ?thesis using assms(1) by linarith
qed

lemma segments_tile:
  assumes p: "0 < p"
  shows "concat (map (\<lambda>g. [g * p..<g * p + (if g + 1 = num_anchored_segments n p then n - g * p else p)])
            [0..<num_anchored_segments n p]) = [0..<n]"
proof (cases "num_anchored_segments n p")
  case 0
  then show ?thesis using num_anchored_segments_zero [OF p] by simp
next
  case (Suc m)
  note b = num_anchored_segments_bounds [OF p Suc]
  have "map (\<lambda>g. [g * p..<g * p + (if g + 1 = Suc m then n - g * p else p)]) [0..<m]
      = map (\<lambda>g. [g * p..<g * p + p]) [0..<m]"
    by (rule map_cong) simp_all
  then have full: "concat (map (\<lambda>g. [g * p..<g * p + (if g + 1 = Suc m then n - g * p else p)])
        [0..<m]) = [0..<m * p]"
    by (simp only: concat_full_segments)
  have last: "[m * p..<m * p + (if m + 1 = Suc m then n - m * p else p)] = [m * p..<n]"
    using b by simp
  have "[0..<n] = [0..<m * p] @ [m * p..<n]"
    using upt_add_eq_append [of 0 "m * p" "n - m * p"] b by simp
  moreover have "concat (map (\<lambda>g. [g * p..<g * p + (if g + 1 = Suc m then n - g * p else p)])
        [0..<Suc m])
      = concat (map (\<lambda>g. [g * p..<g * p + (if g + 1 = Suc m then n - g * p else p)]) [0..<m])
        @ [m * p..<m * p + (if m + 1 = Suc m then n - m * p else p)]"
    by simp
  ultimately show ?thesis
    by (simp only: Suc full last)
qed

lemma launch_positions:
  assumes size: "0 < UncompressedSize cfg"
    and B: "block_length cfg = warp_size * nw" and nw: "0 < nw"
    and p: "0 < period" and na: "na = num_anchored_segments n period"
  shows "mset (map fst (launch_decompress cfg ind rd rsp pa period na ner n)) = mset [0..<n]"
proof -
  let ?params = "\<lambda>g. resolve_segment_decompression_params rsp pa period na ner n g"
  have "mset (map fst (launch_decompress cfg ind rd rsp pa period na ner n))
      = (\<Sum>g\<leftarrow>[0..<num_anchored_segments n period].
           mset (map fst (decompress_by_block cfg ind rd rsp pa period na ner n g)))"
    by (simp add: launch_decompress_def map_concat mset_concat comp_def)
  also have "\<dots> = (\<Sum>g\<leftarrow>[0..<num_anchored_segments n period].
      mset [g * period..<g * period + (if g + 1 = num_anchored_segments n period
                                      then n - g * period else period)])"
    by (simp only: block_positions [OF size B nw] resolve_segment_decompression_params_def
        Let_def na segment_decompression_params_t.simps)
  also have "\<dots> = mset (concat (map (\<lambda>g. [g * period..<g * period +
        (if g + 1 = num_anchored_segments n period then n - g * period else period)])
      [0..<num_anchored_segments n period]))"
    by (simp only: mset_concat map_map comp_def)
  also have "\<dots> = mset [0..<n]"
    by (simp only: segments_tile [OF p])
  finally show ?thesis .
qed



end
